theory Spec2Isabelle
  imports Main "HOL-Library.Multiset" "HOL-Library.Finite_Map" "HOL-Library.Word"
begin

section \<open>Common conventions\<close>

text \<open>
  The Go programs work on \<^verbatim>\<open>int\<close> values and \<^verbatim>\<open>[]int\<close> slices. Elements of the
  containers and arrays are only copied and compared, never computed with, so they are
  modelled as \<^typ>\<open>int\<close> with its order. Index arithmetic stays between \<open>-1\<close> and the
  length of a slice, so it is written over \<^typ>\<open>int\<close> as well, and every indexing
  operation of the source is a checked read or write: outside \<open>0 .. len - 1\<close> the Go
  runtime panics, which the model returns as \<open>Inl IndexOutOfRange\<close>.

  A slice expression \<^verbatim>\<open>arr[k:]\<close> or \<^verbatim>\<open>arr[:k]\<close> panics unless \<open>0 \<le> k \<le> len\<close>
  (\<open>Inl SliceBoundsOutOfRange\<close>). Reading a field through a nil pointer panics as well: \<open>Inl NilDereference\<close>.

  A Go \<^verbatim>\<open>error\<close> value made by \<^verbatim>\<open>fmt.Errorf\<close> is \<open>Errorf msg\<close>; the \<^verbatim>\<open>nil\<close> error is
  \<open>None\<close>.
\<close>

datatype error = Errorf string

datatype panic = IndexOutOfRange | SliceBoundsOutOfRange | NilDereference

text \<open>What a loop with a \<^verbatim>\<open>return\<close> in its body hands to the code after it: the
  returned value, or the state with which it falls through.\<close>

datatype ('r, 's) flow = Return 'r | Next 's

definition in_range :: "'a list \<Rightarrow> int \<Rightarrow> bool" where
  "in_range arr i \<longleftrightarrow> 0 \<le> i \<and> i < int (length arr)"

definition slice_ok :: "'a list \<Rightarrow> int \<Rightarrow> bool" where
  "slice_ok arr k \<longleftrightarrow> 0 \<le> k \<and> k \<le> int (length arr)"

definition at :: "'a list \<Rightarrow> int \<Rightarrow> 'a" where
  "at arr i = arr ! nat i"

definition put :: "'a list \<Rightarrow> int \<Rightarrow> 'a \<Rightarrow> 'a list" where
  "put arr i v = arr[nat i := v]"

text \<open>\<^verbatim>\<open>arr[i], arr[j] = arr[j], arr[i]\<close>: both reads happen before both writes.\<close>

definition swap :: "'a list \<Rightarrow> int \<Rightarrow> int \<Rightarrow> 'a list" where
  "swap arr i j = put (put arr i (at arr j)) j (at arr i)"


section \<open>Stack (02-data-structures/stack.go)\<close>

record Stack =
  items :: "int list"

definition Push :: "Stack \<Rightarrow> int \<Rightarrow> Stack" where
  "Push s item = s\<lparr>items := items s @ [item]\<rparr>"

definition Pop :: "Stack \<Rightarrow> (int \<times> error option) \<times> Stack" where
  "Pop s =
     (if length (items s) = 0 then ((0, Some (Errorf ''stack is empty'')), s)
      else
        let index = length (items s) - 1;
            item = items s ! index
        in ((item, None), s\<lparr>items := take index (items s)\<rparr>))"

definition Stack_Peek :: "Stack \<Rightarrow> (int \<times> error option) \<times> Stack" where
  "Stack_Peek s =
     (if length (items s) = 0 then ((0, Some (Errorf ''stack is empty'')), s)
      else ((items s ! (length (items s) - 1), None), s))"

definition Stack_IsEmpty :: "Stack \<Rightarrow> bool" where
  "Stack_IsEmpty s \<longleftrightarrow> length (items s) = 0"

definition Stack_Size :: "Stack \<Rightarrow> int" where
  "Stack_Size s = int (length (items s))"

text \<open>The zero value \<^verbatim>\<open>&Stack{}\<close>: a nil slice, of length 0.\<close>

definition new_Stack :: Stack where
  "new_Stack = \<lparr>items = []\<rparr>"

text \<open>The scenario of the specification: push a sequence of values one after the
  other, then pop a number of times, collecting what every call returns.\<close>

fun push_all :: "Stack \<Rightarrow> int list \<Rightarrow> Stack" where
  "push_all s [] = s"
| "push_all s (v # vs) = push_all (Push s v) vs"

fun pop_times :: "nat \<Rightarrow> Stack \<Rightarrow> (int \<times> error option) list \<times> Stack" where
  "pop_times 0 s = ([], s)"
| "pop_times (Suc n) s =
     (let (r, s') = Pop s; (rs, s'') = pop_times n s' in (r # rs, s''))"


section \<open>Queue\<close>

text \<open>The field \<^verbatim>\<open>items\<close> of \<^verbatim>\<open>Queue\<close> is \<open>qitems\<close> here, the name \<open>items\<close> being the
  stack's. \<^verbatim>\<open>q.items[1:]\<close> is behind the emptiness test, so its bound is in range.\<close>

record Queue =
  qitems :: "int list"

definition Enqueue :: "Queue \<Rightarrow> int \<Rightarrow> Queue" where
  "Enqueue q item = q\<lparr>qitems := qitems q @ [item]\<rparr>"

definition Dequeue :: "Queue \<Rightarrow> (int \<times> error option) \<times> Queue" where
  "Dequeue q =
     (if length (qitems q) = 0 then ((0, Some (Errorf ''queue is empty'')), q)
      else
        let item = qitems q ! 0
        in ((item, None), q\<lparr>qitems := drop 1 (qitems q)\<rparr>))"

definition Queue_Peek :: "Queue \<Rightarrow> (int \<times> error option) \<times> Queue" where
  "Queue_Peek q =
     (if length (qitems q) = 0 then ((0, Some (Errorf ''queue is empty'')), q)
      else ((qitems q ! 0, None), q))"

definition Queue_IsEmpty :: "Queue \<Rightarrow> bool" where
  "Queue_IsEmpty q \<longleftrightarrow> length (qitems q) = 0"

definition Queue_Size :: "Queue \<Rightarrow> int" where
  "Queue_Size q = int (length (qitems q))"

definition new_Queue :: Queue where
  "new_Queue = \<lparr>qitems = []\<rparr>"

fun enqueue_all :: "Queue \<Rightarrow> int list \<Rightarrow> Queue" where
  "enqueue_all q [] = q"
| "enqueue_all q (v # vs) = enqueue_all (Enqueue q v) vs"

fun dequeue_times :: "nat \<Rightarrow> Queue \<Rightarrow> (int \<times> error option) list \<times> Queue" where
  "dequeue_times 0 q = ([], q)"
| "dequeue_times (Suc n) q =
     (let (r, q') = Dequeue q; (rs, q'') = dequeue_times n q' in (r # rs, q''))"


section \<open>Binary search tree (02-data-structures/tree.go)\<close>

text \<open>
  A \<^verbatim>\<open>*TreeNode\<close> is either nil or points to a node that no other pointer reaches (nodes
  are only made by \<open>Insert\<close>, each stored in one field), so the heap of nodes is the
  datatype below and the in-place update of a child field returns the rebuilt node.
  \<open>insertRecursive\<close> reads \<^verbatim>\<open>node.Value\<close> first: on a nil node that is a panic.
\<close>

datatype TreeNode = Nil | TreeNode (Value: int) (Left: TreeNode) (Right: TreeNode)

record BinaryTree =
  Root :: TreeNode

fun insertRecursive :: "TreeNode \<Rightarrow> int \<Rightarrow> panic + TreeNode" where
  "insertRecursive Nil value = Inl NilDereference"
| "insertRecursive (TreeNode v l r) value =
     (if value < v then
        (if l = Nil then Inr (TreeNode v (TreeNode value Nil Nil) r)
         else (case insertRecursive l value of
                 Inl p \<Rightarrow> Inl p
               | Inr l' \<Rightarrow> Inr (TreeNode v l' r)))
      else
        (if r = Nil then Inr (TreeNode v l (TreeNode value Nil Nil))
         else (case insertRecursive r value of
                 Inl p \<Rightarrow> Inl p
               | Inr r' \<Rightarrow> Inr (TreeNode v l r'))))"

definition Insert :: "BinaryTree \<Rightarrow> int \<Rightarrow> panic + BinaryTree" where
  "Insert t value =
     (if Root t = Nil then Inr (t\<lparr>Root := TreeNode value Nil Nil\<rparr>)
      else (case insertRecursive (Root t) value of
              Inl p \<Rightarrow> Inl p
            | Inr root' \<Rightarrow> Inr (t\<lparr>Root := root'\<rparr>)))"

fun inorderRecursive :: "TreeNode \<Rightarrow> int list \<Rightarrow> int list" where
  "inorderRecursive Nil result = result"
| "inorderRecursive (TreeNode v l r) result =
     inorderRecursive r (inorderRecursive l result @ [v])"

definition InorderTraversal :: "BinaryTree \<Rightarrow> int list" where
  "InorderTraversal t = inorderRecursive (Root t) []"

definition new_BinaryTree :: BinaryTree where
  "new_BinaryTree = \<lparr>Root = Nil\<rparr>"

fun insert_all :: "BinaryTree \<Rightarrow> int list \<Rightarrow> panic + BinaryTree" where
  "insert_all t [] = Inr t"
| "insert_all t (v # vs) =
     (case Insert t v of Inl p \<Rightarrow> Inl p | Inr t' \<Rightarrow> insert_all t' vs)"

text \<open>The values stored in a tree, left to right, and the two ordering invariants:
  the strict one of the documentation (\<open>left < node < right\<close>), and the one with
  \<open>node \<le> right\<close>.\<close>

fun values_of :: "TreeNode \<Rightarrow> int list" where
  "values_of Nil = []"
| "values_of (TreeNode v l r) = values_of l @ v # values_of r"

fun bst_strict :: "TreeNode \<Rightarrow> bool" where
  "bst_strict Nil = True"
| "bst_strict (TreeNode v l r) \<longleftrightarrow>
     list_all (\<lambda>x. x < v) (values_of l) \<and> list_all (\<lambda>x. v < x) (values_of r)
     \<and> bst_strict l \<and> bst_strict r"

fun bst_weak :: "TreeNode \<Rightarrow> bool" where
  "bst_weak Nil = True"
| "bst_weak (TreeNode v l r) \<longleftrightarrow>
     list_all (\<lambda>x. x < v) (values_of l) \<and> list_all (\<lambda>x. v \<le> x) (values_of r)
     \<and> bst_weak l \<and> bst_weak r"


section \<open>Graph (02-data-structures/graph.go)\<close>

text \<open>
  The adjacency lists and the visited sets are Go maps: finite maps. The \<^verbatim>\<open>for range\<close>
  loop over the neighbours of a vertex is a recursion on the list of neighbours.
  \<open>BFS\<close> threads the visited map, the queue and the result through its loops;
  \<open>dfsUtil\<close> gets the visited map and a pointer to the result, so every call works on
  the state its predecessors left: the model passes the pair and returns it. Both
  traversals terminate on every graph, because each round marks an unmarked vertex of
  the (finitely many) listed ones or shortens the work list.
\<close>

record Graph =
  vertices :: "(int, int list) fmap"

text \<open>Reading a key that a Go map does not hold gives the zero value of the element
  type: the nil slice for \<^verbatim>\<open>map[int][]int\<close>, \<^verbatim>\<open>false\<close> for \<^verbatim>\<open>map[int]bool\<close>.\<close>

definition neighbors_of :: "(int, int list) fmap \<Rightarrow> int \<Rightarrow> int list" where
  "neighbors_of m k = (case fmlookup m k of None \<Rightarrow> [] | Some ns \<Rightarrow> ns)"

definition is_visited :: "(int, bool) fmap \<Rightarrow> int \<Rightarrow> bool" where
  "is_visited visited k = (case fmlookup visited k of None \<Rightarrow> False | Some b \<Rightarrow> b)"

definition NewGraph :: Graph where
  "NewGraph = \<lparr>vertices = fmempty\<rparr>"

definition AddVertex :: "Graph \<Rightarrow> int \<Rightarrow> Graph" where
  "AddVertex g vertex =
     (if fmlookup (vertices g) vertex = None
      then g\<lparr>vertices := fmupd vertex [] (vertices g)\<rparr>
      else g)"

definition AddEdge :: "Graph \<Rightarrow> int \<Rightarrow> int \<Rightarrow> Graph" where
  "AddEdge g vertex1 vertex2 =
     (let g1 = g\<lparr>vertices :=
                  fmupd vertex1 (neighbors_of (vertices g) vertex1 @ [vertex2]) (vertices g)\<rparr>
      in g1\<lparr>vertices :=
               fmupd vertex2 (neighbors_of (vertices g1) vertex2 @ [vertex1]) (vertices g1)\<rparr>)"

definition GetNeighbors :: "Graph \<Rightarrow> int \<Rightarrow> int list" where
  "GetNeighbors g vertex = neighbors_of (vertices g) vertex"

subsection \<open>BFS\<close>

fun BFS_neighbors ::
  "int list \<Rightarrow> (int, bool) fmap \<Rightarrow> int list \<Rightarrow> (int, bool) fmap \<times> int list" where
  "BFS_neighbors [] visited queue = (visited, queue)"
| "BFS_neighbors (neighbor # rest) visited queue =
     (if \<not> is_visited visited neighbor
      then BFS_neighbors rest (fmupd neighbor True visited) (queue @ [neighbor])
      else BFS_neighbors rest visited queue)"

text \<open>The vertices that occur in some adjacency list, and those marked in a visited map.\<close>

definition listed :: "Graph \<Rightarrow> int set" where
  "listed g = (\<Union>ns \<in> fmran' (vertices g). set ns)"

definition marked :: "(int, bool) fmap \<Rightarrow> int set" where
  "marked visited = {k. is_visited visited k}"

lemma finite_listed: "finite (listed g)"
  by (simp add: listed_def fmran'_alt_def)

lemma neighbors_listed: "set (neighbors_of (vertices g) v) \<subseteq> listed g"
proof (cases "fmlookup (vertices g) v")
  case None
  then show ?thesis by (simp add: neighbors_of_def)
next
  case (Some ns)
  then have "ns \<in> fmran' (vertices g)" by (rule fmran'I)
  with Some show ?thesis by (auto simp: neighbors_of_def listed_def)
qed

lemma marked_update [simp]: "marked (fmupd k True visited) = insert k (marked visited)"
  by (auto simp: marked_def is_visited_def)

lemma marked_empty [simp]: "marked fmempty = {}"
  by (simp add: marked_def is_visited_def)

lemma is_visited_marked: "is_visited visited k \<longleftrightarrow> k \<in> marked visited"
  by (simp add: marked_def)

lemma BFS_neighbors_measure:
  assumes "finite V" and "set ns \<subseteq> V" and "BFS_neighbors ns visited queue = (visited', queue')"
  shows "2 * card (V - marked visited') + length queue'
           \<le> 2 * card (V - marked visited) + length queue"
  using assms(2,3)
proof (induction ns arbitrary: visited queue)
  case Nil
  then show ?case by simp
next
  case (Cons n ns)
  show ?case
  proof (cases "is_visited visited n")
    case True
    with Cons show ?thesis by simp
  next
    case False
    then have "n \<in> V - marked visited"
      using Cons.prems(1) by (simp add: is_visited_marked)
    then have "card (V - insert n (marked visited)) < card (V - marked visited)"
      using assms(1) by (intro psubset_card_mono) auto
    moreover have "BFS_neighbors ns (fmupd n True visited) (queue @ [n]) = (visited', queue')"
      using Cons.prems(2) False by simp
    then have
      "2 * card (V - marked (visited')) + length queue'
         \<le> 2 * card (V - marked (fmupd n True visited)) + length (queue @ [n])"
      using Cons.prems(1) by (intro Cons.IH) simp_all
    ultimately show ?thesis by simp
  qed
qed

text \<open>One round of \<^verbatim>\<open>for len(queue) > 0\<close>: the queue is non-empty, its head is
  \<^verbatim>\<open>queue[0]\<close> and its tail \<^verbatim>\<open>queue[1:]\<close>.\<close>

function BFS_loop ::
  "Graph \<Rightarrow> (int, bool) fmap \<Rightarrow> int list \<Rightarrow> int list \<Rightarrow> int list" where
  "BFS_loop g visited [] result = result"
| "BFS_loop g visited (vertex # queue) result =
     (case BFS_neighbors (neighbors_of (vertices g) vertex) visited queue of
        (visited', queue') \<Rightarrow> BFS_loop g visited' queue' (result @ [vertex]))"
  by pat_completeness auto
termination
proof (relation "measure (\<lambda>(g, visited, queue, result).
    2 * card (listed g - marked visited) + length queue)", goal_cases)
  case 1
  show ?case by simp
next
  case (2 g visited vertex queue result visited' queue')
  then have "BFS_neighbors (neighbors_of (vertices g) vertex) visited queue = (visited', queue')"
    by simp
  from BFS_neighbors_measure [OF finite_listed neighbors_listed this]
  show ?case by simp
qed

definition BFS :: "Graph \<Rightarrow> int \<Rightarrow> int list" where
  "BFS g start = BFS_loop g (fmupd start True fmempty) [start] []"

subsection \<open>DFS\<close>

function dfsUtil ::
    "Graph \<Rightarrow> int \<Rightarrow> (int, bool) fmap \<times> int list \<Rightarrow> (int, bool) fmap \<times> int list"
  and dfsUtil_neighbors ::
    "Graph \<Rightarrow> int list \<Rightarrow> (int, bool) fmap \<times> int list \<Rightarrow> (int, bool) fmap \<times> int list"
  where
  "dfsUtil g vertex (visited, result) =
     dfsUtil_neighbors g (neighbors_of (vertices g) vertex)
       (fmupd vertex True visited, result @ [vertex])"
| "dfsUtil_neighbors g [] (visited, result) = (visited, result)"
| "dfsUtil_neighbors g (neighbor # rest) (visited, result) =
     (if \<not> is_visited visited neighbor
      then dfsUtil_neighbors g rest (dfsUtil g neighbor (visited, result))
      else dfsUtil_neighbors g rest (visited, result))"
  by pat_completeness auto

lemma dfs_marked_mono:
  "dfsUtil_dfsUtil_neighbors_dom (Inl (g, v, st)) \<Longrightarrow>
     marked (fst st) \<subseteq> marked (fst (dfsUtil g v st))"
  "dfsUtil_dfsUtil_neighbors_dom (Inr (g, ns, st)) \<Longrightarrow>
     marked (fst st) \<subseteq> marked (fst (dfsUtil_neighbors g ns st))"
proof (induction g v st and g ns st rule: dfsUtil_dfsUtil_neighbors.pinduct)
  case (1 g vertex visited result)
  have "marked visited \<subseteq> marked (fmupd vertex True visited)"
    by (simp only: marked_update) blast
  also have "\<dots> \<subseteq> marked (fst (dfsUtil_neighbors g (neighbors_of (vertices g) vertex)
      (fmupd vertex True visited, result @ [vertex])))"
    using "1.IH" by (simp only: fst_conv)
  finally show ?case
    using "1.hyps" by (simp only: dfsUtil.psimps fst_conv)
next
  case (2 g visited result)
  then show ?case by (simp add: dfsUtil_neighbors.psimps)
next
  case (3 g neighbor rest visited result)
  show ?case
  proof (cases "is_visited visited neighbor")
    case True
    with "3.IH"(3) "3.hyps" show ?thesis
      by (simp add: dfsUtil_neighbors.psimps)
  next
    case False
    from "3.IH"(1) [OF False] "3.IH"(2) [OF False]
    have "marked (fst (visited, result))
        \<subseteq> marked (fst (dfsUtil_neighbors g rest (dfsUtil g neighbor (visited, result))))"
      by (rule subset_trans)
    with False "3.hyps" show ?thesis
      by (simp add: dfsUtil_neighbors.psimps)
  qed
qed

termination dfsUtil
proof (relation "inv_image (less_than <*lex*> less_than <*lex*> less_than)
    (\<lambda>x. case x of
        Inl (g, v, (visited, result)) \<Rightarrow>
          (card (listed g - marked visited - {v}), 1::nat, 0::nat)
      | Inr (g, ns, (visited, result)) \<Rightarrow>
          (card ((listed g \<union> set ns) - marked visited), 0, length ns))", goal_cases)
  case 1
  show ?case by (intro wf_inv_image wf_lex_prod wf_less_than)
next
  case (2 g vertex visited result)
  have "listed g \<union> set (neighbors_of (vertices g) vertex) = listed g"
    using neighbors_listed [of g vertex] by auto
  then have "(listed g \<union> set (neighbors_of (vertices g) vertex))
      - marked (fmupd vertex True visited) = listed g - marked visited - {vertex}"
    by auto
  then show ?case by simp
next
  case (3 g neighbor rest visited result)
  then have "neighbor \<notin> marked visited" by (simp add: is_visited_marked)
  then have "listed g - marked visited - {neighbor}
      \<subset> (listed g \<union> set (neighbor # rest)) - marked visited"
    by auto
  then have "card (listed g - marked visited - {neighbor})
      < card ((listed g \<union> set (neighbor # rest)) - marked visited)"
    by (intro psubset_card_mono) (auto simp: finite_listed)
  then show ?case by simp
next
  case (4 g neighbor rest visited result)
  obtain visited' result' where r: "dfsUtil g neighbor (visited, result) = (visited', result')"
    by (cases "dfsUtil g neighbor (visited, result)")
  from dfs_marked_mono(1) [OF 4(2)] r have "marked visited \<subseteq> marked visited'" by simp
  then have "(listed g \<union> set rest) - marked visited'
      \<subseteq> (listed g \<union> set (neighbor # rest)) - marked visited"
    by auto
  then have "card ((listed g \<union> set rest) - marked visited')
      \<le> card ((listed g \<union> set (neighbor # rest)) - marked visited)"
    by (intro card_mono) (auto simp: finite_listed)
  with r show ?case by auto
next
  case (5 g neighbor rest visited result)
  have "(listed g \<union> set rest) - marked visited
      \<subseteq> (listed g \<union> set (neighbor # rest)) - marked visited"
    by auto
  then have "card ((listed g \<union> set rest) - marked visited)
      \<le> card ((listed g \<union> set (neighbor # rest)) - marked visited)"
    by (intro card_mono) (auto simp: finite_listed)
  then show ?case by auto
qed

definition DFS :: "Graph \<Rightarrow> int \<Rightarrow> int list" where
  "DFS g start = snd (dfsUtil g start (fmempty, []))"


subsection \<open>Reachability\<close>

text \<open>The edge relation of a graph (\<open>u\<close> lists \<open>v\<close> as a neighbour), the graph that a
  sequence of \<open>AddVertex\<close> and \<open>AddEdge\<close> calls builds from \<open>NewGraph()\<close>, and the
  undirected edges that the \<open>AddEdge\<close> calls of such a sequence name.\<close>

definition edges :: "Graph \<Rightarrow> (int \<times> int) set" where
  "edges g = {(u, v). v \<in> set (neighbors_of (vertices g) u)}"

datatype call = AddVertex_call int | AddEdge_call int int

fun apply_call :: "Graph \<Rightarrow> call \<Rightarrow> Graph" where
  "apply_call g (AddVertex_call v) = AddVertex g v"
| "apply_call g (AddEdge_call v1 v2) = AddEdge g v1 v2"

definition build :: "call list \<Rightarrow> Graph" where
  "build calls = foldl apply_call NewGraph calls"

definition edge_calls :: "call list \<Rightarrow> (int \<times> int) set" where
  "edge_calls calls = {(a, b). AddEdge_call a b \<in> set calls \<or> AddEdge_call b a \<in> set calls}"

text \<open>What a traversal adds between two states (visited map, result list): the new
  vertices are appended to the result, each once, none of them marked before, they are
  exactly the newly marked ones, and every neighbour of a new vertex is marked at the
  end.\<close>

definition extends ::
  "Graph \<Rightarrow> (int, bool) fmap \<times> int list \<Rightarrow> (int, bool) fmap \<times> int list \<Rightarrow> int list \<Rightarrow> bool" where
  "extends g st st' new \<longleftrightarrow>
     snd st' = snd st @ new \<and> distinct new \<and> set new \<inter> marked (fst st) = {}
     \<and> marked (fst st') = marked (fst st) \<union> set new
     \<and> (\<forall>u\<in>set new. set (neighbors_of (vertices g) u) \<subseteq> marked (fst st'))"


section \<open>Sorting (03-algorithms/sorting.go)\<close>

text \<open>
  \<open>BubbleSort\<close>, \<open>QuickSort\<close> and \<open>InsertionSort\<close> update the caller's array in place:
  the model takes the array and returns its final contents. \<open>MergeSort\<close> returns a
  slice. Every \<^verbatim>\<open>for\<close> loop is a recursive function on the loop's variables, whose
  measure is the distance of the loop counter to its bound.
\<close>

subsection \<open>BubbleSort\<close>

function BubbleSort_inner ::
  "int list \<Rightarrow> int \<Rightarrow> int \<Rightarrow> int \<Rightarrow> bool \<Rightarrow> panic + int list \<times> bool" where
  "BubbleSort_inner arr n i j swapped =
     (if j < n - i - 1 then
        if \<not> in_range arr j \<or> \<not> in_range arr (j + 1) then Inl IndexOutOfRange
        else if at arr j > at arr (j + 1) then
          BubbleSort_inner (swap arr j (j + 1)) n i (j + 1) True
        else BubbleSort_inner arr n i (j + 1) swapped
      else Inr (arr, swapped))"
  by pat_completeness auto
termination
  by (relation "measure (\<lambda>(arr, n, i, j, swapped). nat (n - i - 1 - j))") auto

function BubbleSort_outer :: "int list \<Rightarrow> int \<Rightarrow> int \<Rightarrow> panic + int list" where
  "BubbleSort_outer arr n i =
     (if i < n - 1 then
        (case BubbleSort_inner arr n i 0 False of
           Inl p \<Rightarrow> Inl p
         | Inr (arr', swapped) \<Rightarrow>
             if \<not> swapped then Inr arr' else BubbleSort_outer arr' n (i + 1))
      else Inr arr)"
  by pat_completeness auto
termination
  by (relation "measure (\<lambda>(arr, n, i). nat (n - 1 - i))") auto

definition BubbleSort :: "int list \<Rightarrow> panic + int list" where
  "BubbleSort arr = BubbleSort_outer arr (int (length arr)) 0"

subsection \<open>InsertionSort\<close>

function InsertionSort_inner :: "int list \<Rightarrow> int \<Rightarrow> int \<Rightarrow> panic + int list \<times> int" where
  "InsertionSort_inner arr key j =
     (if j \<ge> 0 then
        if \<not> in_range arr j then Inl IndexOutOfRange
        else if at arr j > key then
          (if \<not> in_range arr (j + 1) then Inl IndexOutOfRange
           else InsertionSort_inner (put arr (j + 1) (at arr j)) key (j - 1))
        else Inr (arr, j)
      else Inr (arr, j))"
  by pat_completeness auto
termination
  by (relation "measure (\<lambda>(arr, key, j). nat (j + 1))") auto

declare InsertionSort_inner.simps [simp del]

lemma InsertionSort_inner_length:
  "InsertionSort_inner arr key j = Inr (arr', j') \<Longrightarrow> length arr' = length arr"
proof (induction arr key j rule: InsertionSort_inner.induct)
  case (1 arr key j)
  from "1.prems" show ?case
    by (subst (asm) InsertionSort_inner.simps)
       (auto simp: put_def split: if_splits dest: "1.IH")
qed

function InsertionSort_outer :: "int list \<Rightarrow> int \<Rightarrow> panic + int list" where
  "InsertionSort_outer arr i =
     (if i < int (length arr) then
        if \<not> in_range arr i then Inl IndexOutOfRange
        else
          (case InsertionSort_inner arr (at arr i) (i - 1) of
             Inl p \<Rightarrow> Inl p
           | Inr (arr', j) \<Rightarrow>
               if \<not> in_range arr' (j + 1) then Inl IndexOutOfRange
               else InsertionSort_outer (put arr' (j + 1) (at arr i)) (i + 1))
      else Inr arr)"
  by pat_completeness auto
termination
  by (relation "measure (\<lambda>(arr, i). nat (int (length arr) - i))")
     (auto simp: put_def dest: InsertionSort_inner_length)

definition InsertionSort :: "int list \<Rightarrow> panic + int list" where
  "InsertionSort arr = InsertionSort_outer arr 1"

subsection \<open>QuickSort\<close>

text \<open>\<^verbatim>\<open>partition\<close> of the source is \<open>partition_qs\<close> (the list library has a
  \<open>partition\<close>). After \<^verbatim>\<open>i++\<close> the swap reads and writes \<^verbatim>\<open>arr[i]\<close> and \<^verbatim>\<open>arr[j]\<close>.
  The recursion of \<open>quickSortHelper\<close> terminates because the pivot index lies between
  \<open>low\<close> and \<open>high\<close>.\<close>

function partition_loop ::
  "int list \<Rightarrow> int \<Rightarrow> int \<Rightarrow> int \<Rightarrow> int \<Rightarrow> panic + int list \<times> int" where
  "partition_loop arr pivot high i j =
     (if j < high then
        if \<not> in_range arr j then Inl IndexOutOfRange
        else if at arr j \<le> pivot then
          (if \<not> in_range arr (i + 1) then Inl IndexOutOfRange
           else partition_loop (swap arr (i + 1) j) pivot high (i + 1) (j + 1))
        else partition_loop arr pivot high i (j + 1)
      else Inr (arr, i))"
  by pat_completeness auto
termination
  by (relation "measure (\<lambda>(arr, pivot, high, i, j). nat (high - j))") auto

declare partition_loop.simps [simp del]

definition partition_qs :: "int list \<Rightarrow> int \<Rightarrow> int \<Rightarrow> panic + int list \<times> int" where
  "partition_qs arr low high =
     (if \<not> in_range arr high then Inl IndexOutOfRange
      else
        (case partition_loop arr (at arr high) high (low - 1) low of
           Inl p \<Rightarrow> Inl p
         | Inr (arr', i) \<Rightarrow>
             if \<not> in_range arr' (i + 1) \<or> \<not> in_range arr' high then Inl IndexOutOfRange
             else Inr (swap arr' (i + 1) high, i + 1)))"

lemma partition_loop_bounds:
  "partition_loop arr pivot high i j = Inr (arr', i') \<Longrightarrow> i < j \<Longrightarrow> j \<le> high
     \<Longrightarrow> i \<le> i' \<and> i' < high"
proof (induction arr pivot high i j rule: partition_loop.induct)
  case (1 arr pivot high i j)
  show ?case
  proof (cases "j < high")
    case False
    with "1.prems" show ?thesis
      by (subst (asm) partition_loop.simps) simp
  next
    case True
    show ?thesis
    proof (cases "at arr j \<le> pivot")
      case le: True
      from "1.prems"(1) True le
      have r: "in_range arr j" "in_range arr (i + 1)"
        "partition_loop (swap arr (i + 1) j) pivot high (i + 1) (j + 1) = Inr (arr', i')"
        by (subst (asm) partition_loop.simps, simp split: if_splits)+
      from "1.IH"(1) [OF True _ le _ r(3)] r(1,2) "1.prems"(2) True
      show ?thesis by simp
    next
      case gt: False
      from "1.prems"(1) True gt
      have r: "in_range arr j" "partition_loop arr pivot high i (j + 1) = Inr (arr', i')"
        by (subst (asm) partition_loop.simps, simp split: if_splits)+
      from "1.IH"(2) [OF True _ gt r(2)] r(1) "1.prems"(2) True
      show ?thesis by simp
    qed
  qed
qed

lemma partition_qs_bounds:
  "partition_qs arr low high = Inr (arr', p) \<Longrightarrow> low < high \<Longrightarrow> low \<le> p \<and> p \<le> high"
  by (auto simp: partition_qs_def split: if_splits sum.splits dest!: partition_loop_bounds)

function quickSortHelper :: "int list \<Rightarrow> int \<Rightarrow> int \<Rightarrow> panic + int list" where
  "quickSortHelper arr low high =
     (if low < high then
        (case partition_qs arr low high of
           Inl p \<Rightarrow> Inl p
         | Inr (arr1, pi) \<Rightarrow>
             (case quickSortHelper arr1 low (pi - 1) of
                Inl p \<Rightarrow> Inl p
              | Inr arr2 \<Rightarrow> quickSortHelper arr2 (pi + 1) high))
      else Inr arr)"
  by pat_completeness auto
termination
  by (relation "measure (\<lambda>(arr, low, high). nat (high - low))")
     (auto dest!: partition_qs_bounds)

declare quickSortHelper.simps [simp del]

definition QuickSort :: "int list \<Rightarrow> panic + int list" where
  "QuickSort arr = quickSortHelper arr 0 (int (length arr) - 1)"

subsection \<open>MergeSort\<close>

text \<open>\<^verbatim>\<open>left[i:]\<close> and \<^verbatim>\<open>arr[:mid]\<close> panic unless the bound lies in \<open>0 .. len\<close>.\<close>

function merge_loop ::
  "int list \<Rightarrow> int list \<Rightarrow> int \<Rightarrow> int \<Rightarrow> int list \<Rightarrow> panic + int \<times> int \<times> int list" where
  "merge_loop left right i j result =
     (if i < int (length left) \<and> j < int (length right) then
        if \<not> in_range left i \<or> \<not> in_range right j then Inl IndexOutOfRange
        else if at left i \<le> at right j then
          merge_loop left right (i + 1) j (result @ [at left i])
        else merge_loop left right i (j + 1) (result @ [at right j])
      else Inr (i, j, result))"
  by pat_completeness auto
termination
  by (relation "measure (\<lambda>(left, right, i, j, result).
        nat (int (length left) - i) + nat (int (length right) - j))") auto

declare merge_loop.simps [simp del]

definition merge :: "int list \<Rightarrow> int list \<Rightarrow> panic + int list" where
  "merge left right =
     (case merge_loop left right 0 0 [] of
        Inl p \<Rightarrow> Inl p
      | Inr (i, j, result) \<Rightarrow>
          if \<not> slice_ok left i \<or> \<not> slice_ok right j then Inl SliceBoundsOutOfRange
          else Inr (result @ drop (nat i) left @ drop (nat j) right))"

function MergeSort :: "int list \<Rightarrow> panic + int list" where
  "MergeSort arr =
     (if int (length arr) \<le> 1 then Inr arr
      else
        let mid = int (length arr) div 2 in
        if \<not> slice_ok arr mid then Inl SliceBoundsOutOfRange
        else
          (case MergeSort (take (nat mid) arr) of
             Inl p \<Rightarrow> Inl p
           | Inr left \<Rightarrow>
               (case MergeSort (drop (nat mid) arr) of
                  Inl p \<Rightarrow> Inl p
                | Inr right \<Rightarrow> merge left right)))"
  by pat_completeness auto
termination
  by (relation "measure length") auto

declare MergeSort.simps [simp del]


section \<open>Searching (03-algorithms, searching)\<close>

text \<open>\<^verbatim>\<open>for i, value := range arr\<close> visits the indices \<open>0 .. len - 1\<close> in order.\<close>

function LinearSearch_loop :: "int list \<Rightarrow> int \<Rightarrow> int \<Rightarrow> int" where
  "LinearSearch_loop arr target i =
     (if in_range arr i then
        (if at arr i = target then i else LinearSearch_loop arr target (i + 1))
      else -1)"
  by pat_completeness auto
termination
  by (relation "measure (\<lambda>(arr, target, i). nat (int (length arr) - i))")
     (auto simp: in_range_def)

definition LinearSearch :: "int list \<Rightarrow> int \<Rightarrow> int" where
  "LinearSearch arr target = LinearSearch_loop arr target 0"

function BinarySearch_loop :: "int list \<Rightarrow> int \<Rightarrow> int \<Rightarrow> int \<Rightarrow> panic + int" where
  "BinarySearch_loop arr target left right =
     (if left \<le> right then
        let mid = left + (right - left) div 2 in
        if \<not> in_range arr mid then Inl IndexOutOfRange
        else if at arr mid = target then Inr mid
        else if at arr mid < target then BinarySearch_loop arr target (mid + 1) right
        else BinarySearch_loop arr target left (mid - 1)
      else Inr (-1))"
  by pat_completeness auto
termination
  by (relation "measure (\<lambda>(arr, target, left, right). nat (right - left + 1))") auto

definition BinarySearch :: "int list \<Rightarrow> int \<Rightarrow> panic + int" where
  "BinarySearch arr target = BinarySearch_loop arr target 0 (int (length arr) - 1)"

text \<open>The file's own \<^verbatim>\<open>min\<close> helper.\<close>

definition min_int :: "int \<Rightarrow> int \<Rightarrow> int" where
  "min_int a b = (if a < b then a else b)"

text \<open>
  \<open>JumpSearch\<close> computes \<^verbatim>\<open>int(math.Sqrt(float64(n)))\<close> twice, a floating-point
  computation on the length alone; its value is the parameter \<open>s\<close> of the model. The
  first loop has no bound of its own (with \<open>s \<le> 0\<close> the step never grows), so it is a
  partial function: \<open>None\<close> is "does not return". Its condition reads
  \<^verbatim>\<open>arr[min(step, n)-1]\<close> before anything else. The second loop returns from the
  function or falls through with the final \<open>prev\<close>.
\<close>

partial_function (option) JumpSearch_block ::
  "int \<Rightarrow> int list \<Rightarrow> int \<Rightarrow> int \<Rightarrow> int \<Rightarrow> (panic + (int, int \<times> int) flow) option" where
  "JumpSearch_block s arr target step prev =
     (let n = int (length arr); minStep = min_int step n - 1 in
      if \<not> in_range arr minStep then Some (Inl IndexOutOfRange)
      else if at arr minStep < target then
        (if step \<ge> n then Some (Inr (Return (-1)))
         else JumpSearch_block s arr target (step + s) step)
      else Some (Inr (Next (step, prev))))"

declare JumpSearch_block.simps [code]

function JumpSearch_linear :: "int list \<Rightarrow> int \<Rightarrow> int \<Rightarrow> int \<Rightarrow> panic + (int, int) flow" where
  "JumpSearch_linear arr target step prev =
     (if \<not> in_range arr prev then Inl IndexOutOfRange
      else if at arr prev < target then
        (if prev + 1 = min_int step (int (length arr)) then Inr (Return (-1))
         else JumpSearch_linear arr target step (prev + 1))
      else Inr (Next prev))"
  by pat_completeness auto
termination
  by (relation "measure (\<lambda>(arr, target, step, prev). nat (int (length arr) - prev))")
     (auto simp: in_range_def)

definition JumpSearch :: "int \<Rightarrow> int list \<Rightarrow> int \<Rightarrow> (panic + int) option" where
  "JumpSearch s arr target =
     (case JumpSearch_block s arr target s 0 of
        None \<Rightarrow> None
      | Some (Inl p) \<Rightarrow> Some (Inl p)
      | Some (Inr (Return r)) \<Rightarrow> Some (Inr r)
      | Some (Inr (Next (step, prev))) \<Rightarrow>
          (case JumpSearch_linear arr target step prev of
             Inl p \<Rightarrow> Some (Inl p)
           | Inr (Return r) \<Rightarrow> Some (Inr r)
           | Inr (Next prev') \<Rightarrow>
               if \<not> in_range arr prev' then Some (Inl IndexOutOfRange)
               else if at arr prev' = target then Some (Inr prev')
               else Some (Inr (-1))))"

section \<open>String matching (03-algorithms, strings)\<close>

text \<open>
  A Go string is indexed by bytes; \<^typ>\<open>string\<close> is the list of them. Neither loop has a
  bound that holds for every state (the fallback \<^verbatim>\<open>j = lps[j-1]\<close> decreases \<open>j\<close> only
  for a well-formed table), so both are partial functions, \<open>None\<close> meaning "does not
  return". The variable \<^verbatim>\<open>length\<close> of \<^verbatim>\<open>computeLPSArray\<close> is \<open>len\<close> here.
\<close>

partial_function (option) computeLPSArray_loop ::
  "string \<Rightarrow> int list \<Rightarrow> int \<Rightarrow> int \<Rightarrow> (panic + int list) option" where
  "computeLPSArray_loop pattern lps len i =
     (if i < int (length pattern) then
        if \<not> in_range pattern i \<or> \<not> in_range pattern len then Some (Inl IndexOutOfRange)
        else if at pattern i = at pattern len then
          (if \<not> in_range lps i then Some (Inl IndexOutOfRange)
           else computeLPSArray_loop pattern (put lps i (len + 1)) (len + 1) (i + 1))
        else if len \<noteq> 0 then
          (if \<not> in_range lps (len - 1) then Some (Inl IndexOutOfRange)
           else computeLPSArray_loop pattern lps (at lps (len - 1)) i)
        else
          (if \<not> in_range lps i then Some (Inl IndexOutOfRange)
           else computeLPSArray_loop pattern (put lps i 0) len (i + 1))
      else Some (Inr lps))"

declare computeLPSArray_loop.simps [code]

definition computeLPSArray :: "string \<Rightarrow> (panic + int list) option" where
  "computeLPSArray pattern =
     computeLPSArray_loop pattern (replicate (length pattern) 0) 0 1"

partial_function (option) KMPSearch_loop ::
  "string \<Rightarrow> string \<Rightarrow> int list \<Rightarrow> int \<Rightarrow> int \<Rightarrow> int list \<Rightarrow> (panic + int list) option" where
  "KMPSearch_loop text pattern lps i j matches =
     (if i < int (length text) then
        if \<not> in_range pattern j \<or> \<not> in_range text i then Some (Inl IndexOutOfRange)
        else
          let i1 = (if at pattern j = at text i then i + 1 else i);
              j1 = (if at pattern j = at text i then j + 1 else j)
          in
            if j1 = int (length pattern) then
              (if \<not> in_range lps (j1 - 1) then Some (Inl IndexOutOfRange)
               else KMPSearch_loop text pattern lps i1 (at lps (j1 - 1)) (matches @ [i1 - j1]))
            else if i1 < int (length text) then
              (if \<not> in_range pattern j1 \<or> \<not> in_range text i1 then Some (Inl IndexOutOfRange)
               else if at pattern j1 \<noteq> at text i1 then
                 (if j1 \<noteq> 0 then
                    (if \<not> in_range lps (j1 - 1) then Some (Inl IndexOutOfRange)
                     else KMPSearch_loop text pattern lps i1 (at lps (j1 - 1)) matches)
                  else KMPSearch_loop text pattern lps (i1 + 1) j1 matches)
               else KMPSearch_loop text pattern lps i1 j1 matches)
            else KMPSearch_loop text pattern lps i1 j1 matches
      else Some (Inr matches))"

declare KMPSearch_loop.simps [code]

definition KMPSearch :: "string \<Rightarrow> string \<Rightarrow> (panic + int list) option" where
  "KMPSearch text pattern =
     (case computeLPSArray pattern of
        None \<Rightarrow> None
      | Some (Inl p) \<Rightarrow> Some (Inl p)
      | Some (Inr lps) \<Rightarrow> KMPSearch_loop text pattern lps 0 0 [])"

section \<open>Rune conversions in the design-pattern files\<close>

text \<open>
  A Go string is a sequence of bytes; \<^typ>\<open>string\<close> is the list of them. \<^verbatim>\<open>rune\<close> is
  \<^verbatim>\<open>int32\<close>: the conversion \<^verbatim>\<open>rune(size)\<close> of an \<^verbatim>\<open>int\<close> keeps the low 32 bits, read
  as a signed number. The conversion \<^verbatim>\<open>string(r)\<close> of a rune gives the UTF-8 encoding of
  the code point \<open>r\<close>, and the encoding of U+FFFD when \<open>r\<close> is not a Unicode scalar value
  (negative, a surrogate, or above U+10FFFF).
\<close>

definition rune :: "int \<Rightarrow> 32 word" where
  "rune n = word_of_int n"

definition valid_rune :: "int \<Rightarrow> bool" where
  "valid_rune c \<longleftrightarrow> 0 \<le> c \<and> c \<le> 0x10FFFF \<and> \<not> (0xD800 \<le> c \<and> c \<le> 0xDFFF)"

definition utf8_encode :: "int \<Rightarrow> string" where
  "utf8_encode c =
     (if c < 0x80 then [char_of c]
      else if c < 0x800 then [char_of (0xC0 + c div 0x40), char_of (0x80 + c mod 0x40)]
      else if c < 0x10000 then
        [char_of (0xE0 + c div 0x1000), char_of (0x80 + c div 0x40 mod 0x40),
         char_of (0x80 + c mod 0x40)]
      else
        [char_of (0xF0 + c div 0x40000), char_of (0x80 + c div 0x1000 mod 0x40),
         char_of (0x80 + c div 0x40 mod 0x40), char_of (0x80 + c mod 0x40)])"

definition string_of_rune :: "32 word \<Rightarrow> string" where
  "string_of_rune r = (if valid_rune (sint r) then utf8_encode (sint r) else utf8_encode 0xFFFD)"

subsection \<open>Facade: HardDrive.Read\<close>

text \<open>The parameter \<^verbatim>\<open>size\<close> is \<open>sz\<close> here.\<close>

definition HardDrive_Read :: "string \<Rightarrow> int \<Rightarrow> string" where
  "HardDrive_Read position sz =
     ''HardDrive: Reading data of size '' @ string_of_rune (rune sz) @ '' from '' @ position"

subsection \<open>Strategy: the Pay methods\<close>

text \<open>
  The amount is a \<^verbatim>\<open>float64\<close>; \<^verbatim>\<open>rune(amount)\<close> is a floating-point to integer
  conversion, which the model takes as the parameter \<open>rune_of_float\<close>.
\<close>

definition CreditCardStrategy_Pay :: "('f \<Rightarrow> 32 word) \<Rightarrow> 'f \<Rightarrow> string" where
  "CreditCardStrategy_Pay rune_of_float amount =
     ''Paid '' @ string_of_rune (rune_of_float amount) @ '' using Credit Card''"

definition PayPalStrategy_Pay :: "('f \<Rightarrow> 32 word) \<Rightarrow> 'f \<Rightarrow> string" where
  "PayPalStrategy_Pay rune_of_float amount =
     ''Paid '' @ string_of_rune (rune_of_float amount) @ '' using PayPal''"

definition BitcoinStrategy_Pay :: "('f \<Rightarrow> 32 word) \<Rightarrow> 'f \<Rightarrow> string" where
  "BitcoinStrategy_Pay rune_of_float amount =
     ''Paid '' @ string_of_rune (rune_of_float amount) @ '' using Bitcoin''"

subsection \<open>What the specification compares with\<close>

text \<open>"The single character whose code point is \<open>c\<close>": the bytes that encode \<open>c\<close>, for
  a \<open>c\<close> that is the code point of a character. The decimal representation of an
  integer, as \<^verbatim>\<open>strconv.Itoa\<close> writes it.\<close>

definition char_with_code_point :: "string \<Rightarrow> int \<Rightarrow> bool" where
  "char_with_code_point bytes c \<longleftrightarrow> valid_rune c \<and> bytes = utf8_encode c"

fun digits :: "nat \<Rightarrow> string" where
  "digits n =
     (if n < 10 then [char_of (48 + int n)]
      else digits (n div 10) @ [char_of (48 + int (n mod 10))])"

definition decimal :: "int \<Rightarrow> string" where
  "decimal n = (if n < 0 then CHR ''-'' # digits (nat (- n)) else digits (nat n))"


section \<open>Stack and queue: results\<close>

lemma push_all_items: "items (push_all s vs) = items s @ vs"
  by (induction vs arbitrary: s) (simp_all add: Push_def)

lemma push_all_more: "Stack.more (push_all s vs) = Stack.more s"
  by (induction vs arbitrary: s) (simp_all add: Push_def)

lemma pop_times_snoc:
  "pop_times (length vs) (s\<lparr>items := items s @ vs\<rparr>) =
     (map (\<lambda>v. (v, None)) (rev vs), s)"
proof (induction vs arbitrary: s rule: rev_induct)
  case Nil
  show ?case by simp
next
  case (snoc v vs)
  have "Pop (s\<lparr>items := items s @ vs @ [v]\<rparr>) = ((v, None), s\<lparr>items := items s @ vs\<rparr>)"
    by (simp add: Pop_def Let_def nth_append flip: append_assoc)
  with snoc.IH [of s] show ?case by simp
qed

lemma enqueue_all_items: "qitems (enqueue_all q vs) = qitems q @ vs"
  by (induction vs arbitrary: q) (simp_all add: Enqueue_def)

lemma dequeue_times_all:
  "dequeue_times (length vs) \<lparr>qitems = vs\<rparr> = (map (\<lambda>v. (v, None)) vs, \<lparr>qitems = []\<rparr>)"
  by (induction vs) (simp_all add: Dequeue_def)

text \<open>
  C4. On an empty stack, \<open>Pop\<close> and \<open>Peek\<close> return the value 0 with a non-nil error and
  leave the stack as it was, of size 0; on an empty queue, \<open>Dequeue\<close> and \<open>Peek\<close> do the
  same. (The model has no branch that panics: the reads \<open>items[index]\<close> and \<open>items[0]\<close>
  are behind the emptiness test.)
\<close>

theorem C4_empty_container_error:
  "Pop new_Stack = ((0, Some (Errorf ''stack is empty'')), new_Stack)
   \<and> Stack_Peek new_Stack = ((0, Some (Errorf ''stack is empty'')), new_Stack)
   \<and> Stack_Size (snd (Pop new_Stack)) = 0
   \<and> Stack_Size (snd (Stack_Peek new_Stack)) = 0
   \<and> Dequeue new_Queue = ((0, Some (Errorf ''queue is empty'')), new_Queue)
   \<and> Queue_Peek new_Queue = ((0, Some (Errorf ''queue is empty'')), new_Queue)
   \<and> Queue_Size (snd (Dequeue new_Queue)) = 0
   \<and> Queue_Size (snd (Queue_Peek new_Queue)) = 0"
  by (simp add: Pop_def Stack_Peek_def Stack_Size_def new_Stack_def
      Dequeue_def Queue_Peek_def Queue_Size_def new_Queue_def)

text \<open>
  C5. Pushing \<open>vs = [v1, ..., vN]\<close> onto an empty stack and popping \<open>N\<close> times returns
  \<open>vN, ..., v1\<close>, each with the nil error, and leaves the stack empty; enqueuing \<open>vs\<close>
  onto an empty queue and dequeuing \<open>N\<close> times returns \<open>v1, ..., vN\<close>, each with the
  nil error, and leaves the queue empty.
\<close>

theorem C5_lifo_fifo:
  "pop_times (length vs) (push_all new_Stack vs) =
     (map (\<lambda>v. (v, None)) (rev vs), new_Stack)
   \<and> dequeue_times (length vs) (enqueue_all new_Queue vs) =
     (map (\<lambda>v. (v, None)) vs, new_Queue)"
proof
  have "push_all new_Stack vs = new_Stack\<lparr>items := items new_Stack @ vs\<rparr>"
    by (simp add: new_Stack_def push_all_items push_all_more)
  then show "pop_times (length vs) (push_all new_Stack vs) =
      (map (\<lambda>v. (v, None)) (rev vs), new_Stack)"
    by (simp only: pop_times_snoc)
next
  have "enqueue_all new_Queue vs = \<lparr>qitems = vs\<rparr>"
    by (simp add: new_Queue_def enqueue_all_items)
  then show "dequeue_times (length vs) (enqueue_all new_Queue vs) =
      (map (\<lambda>v. (v, None)) vs, new_Queue)"
    by (simp add: dequeue_times_all new_Queue_def)
qed

section \<open>Binary search tree: results\<close>

lemma inorderRecursive_values: "inorderRecursive t result = result @ values_of t"
  by (induction t arbitrary: result) simp_all

lemma insertRecursive_values:
  "t \<noteq> Nil \<Longrightarrow> \<exists>t'. insertRecursive t x = Inr t' \<and> t' \<noteq> Nil
      \<and> mset (values_of t') = add_mset x (mset (values_of t))"
  by (induction t) (auto split: sum.splits)

lemma insertRecursive_set:
  "insertRecursive t x = Inr t' \<Longrightarrow> set (values_of t') = insert x (set (values_of t))"
  by (induction t arbitrary: t') (auto split: if_splits sum.splits)

lemma insertRecursive_weak:
  "bst_weak t \<Longrightarrow> insertRecursive t x = Inr t' \<Longrightarrow> bst_weak t'"
proof (induction t arbitrary: t')
  case Nil
  then show ?case by simp
next
  case (TreeNode v l r)
  show ?case
  proof (cases "x < v")
    case True
    show ?thesis
    proof (cases "l = Nil")
      case True
      with \<open>x < v\<close> TreeNode.prems show ?thesis by auto
    next
      case False
      with \<open>x < v\<close> TreeNode.prems(2) obtain l' where
        l': "insertRecursive l x = Inr l'" "t' = TreeNode v l' r"
        by (auto split: sum.splits)
      from TreeNode.IH(1) [OF _ l'(1)] TreeNode.prems(1) have "bst_weak l'" by simp
      with insertRecursive_set [OF l'(1)] l'(2) \<open>x < v\<close> TreeNode.prems(1) show ?thesis
        by (simp add: list_all_iff)
    qed
  next
    case nlt: False
    show ?thesis
    proof (cases "r = Nil")
      case True
      with nlt TreeNode.prems show ?thesis by auto
    next
      case False
      with nlt TreeNode.prems(2) obtain r' where
        r': "insertRecursive r x = Inr r'" "t' = TreeNode v l r'"
        by (auto split: sum.splits)
      from TreeNode.IH(2) [OF _ r'(1)] TreeNode.prems(1) have "bst_weak r'" by simp
      with insertRecursive_set [OF r'(1)] r'(2) nlt TreeNode.prems(1) show ?thesis
        by (simp add: list_all_iff)
    qed
  qed
qed

lemma bst_weak_sorted: "bst_weak t \<Longrightarrow> sorted (values_of t)"
  by (induction t) (fastforce simp: sorted_append list_all_iff)+

lemma Insert_ok:
  "bst_weak (Root t) \<Longrightarrow>
   \<exists>t'. Insert t x = Inr t' \<and> bst_weak (Root t')
      \<and> mset (values_of (Root t')) = add_mset x (mset (values_of (Root t)))"
proof (cases "Root t = Nil")
  case True
  then show ?thesis by (simp add: Insert_def)
next
  case False
  assume w: "bst_weak (Root t)"
  from insertRecursive_values [OF False, of x] obtain r' where
    r': "insertRecursive (Root t) x = Inr r'"
        "mset (values_of r') = add_mset x (mset (values_of (Root t)))"
    by blast
  with insertRecursive_weak [OF w r'(1)] False show ?thesis
    by (simp add: Insert_def)
qed

lemma insert_all_ok:
  "bst_weak (Root t) \<Longrightarrow>
   \<exists>t'. insert_all t vs = Inr t' \<and> bst_weak (Root t')
      \<and> mset (values_of (Root t')) = mset (values_of (Root t)) + mset vs"
proof (induction vs arbitrary: t)
  case Nil
  then show ?case by simp
next
  case (Cons v vs)
  from Insert_ok [OF Cons.prems, of v] obtain t1 where
    t1: "Insert t v = Inr t1" "bst_weak (Root t1)"
        "mset (values_of (Root t1)) = add_mset v (mset (values_of (Root t)))"
    by blast
  from Cons.IH [OF t1(2)] t1 show ?case by auto
qed

text \<open>
  C9. For every sequence \<open>vs\<close> of values inserted into an empty tree, duplicates
  included, no \<open>Insert\<close> panics, and \<open>InorderTraversal\<close> of the resulting tree is
  non-decreasing and has exactly the inserted values, with their multiplicities.
\<close>

theorem C9_inorder_sorted:
  "\<exists>t. insert_all new_BinaryTree vs = Inr t
     \<and> sorted (InorderTraversal t) \<and> mset (InorderTraversal t) = mset vs"
proof -
  have "bst_weak (Root new_BinaryTree)" by (simp add: new_BinaryTree_def)
  from insert_all_ok [OF this, of vs] obtain t where
    "insert_all new_BinaryTree vs = Inr t" "bst_weak (Root t)"
    "mset (values_of (Root t)) = mset vs"
    by (auto simp: new_BinaryTree_def)
  then show ?thesis
    by (auto simp: InorderTraversal_def inorderRecursive_values bst_weak_sorted)
qed

text \<open>
  C3. The strict ordering invariant (every value of the left subtree below the node's
  value, every value of the right subtree above it) does not survive a duplicate:
  inserting 5 twice puts the second 5 into the right subtree of the first.
\<close>

theorem C3_duplicate_breaks_strict_order:
  "insert_all new_BinaryTree [5, 5] = Inr \<lparr>Root = TreeNode 5 Nil (TreeNode 5 Nil Nil)\<rparr>
   \<and> \<not> bst_strict (TreeNode 5 Nil (TreeNode 5 Nil Nil))"
  by (simp add: new_BinaryTree_def Insert_def)

section \<open>Graph: results\<close>

lemma closed_reach:
  assumes "s \<in> X" and "\<forall>u\<in>X. set (neighbors_of (vertices g) u) \<subseteq> X"
  shows "(edges g)\<^sup>* `` {s} \<subseteq> X"
proof
  fix v assume "v \<in> (edges g)\<^sup>* `` {s}"
  then have "(s, v) \<in> (edges g)\<^sup>*" by simp
  then show "v \<in> X"
  proof (induction rule: rtrancl_induct)
    case base
    show ?case by (rule assms(1))
  next
    case (step y z)
    then show ?case using assms(2) by (auto simp: edges_def)
  qed
qed

lemma reach_step:
  "u \<in> (edges g)\<^sup>* `` S \<Longrightarrow> set (neighbors_of (vertices g) u) \<subseteq> (edges g)\<^sup>* `` S"
  by (auto simp: edges_def intro: rtrancl_into_rtrancl)

subsection \<open>BFS\<close>

lemma BFS_neighbors_spec:
  "\<exists>new. BFS_neighbors ns visited queue = (fst (BFS_neighbors ns visited queue), queue @ new)
     \<and> distinct new \<and> set new = set ns - marked visited
     \<and> marked (fst (BFS_neighbors ns visited queue)) = marked visited \<union> set ns"
proof (induction ns arbitrary: visited queue)
  case Nil
  show ?case by (intro exI [of _ "[]"]) simp
next
  case (Cons n ns)
  show ?case
  proof (cases "is_visited visited n")
    case True
    from Cons.IH [of visited queue] obtain new where
      "BFS_neighbors ns visited queue = (fst (BFS_neighbors ns visited queue), queue @ new)"
      "distinct new" "set new = set ns - marked visited"
      "marked (fst (BFS_neighbors ns visited queue)) = marked visited \<union> set ns"
      by blast
    with True show ?thesis
      by (intro exI [of _ new]) (auto simp: is_visited_marked)
  next
    case False
    from Cons.IH [of "fmupd n True visited" "queue @ [n]"] obtain new where
      n: "BFS_neighbors ns (fmupd n True visited) (queue @ [n])
          = (fst (BFS_neighbors ns (fmupd n True visited) (queue @ [n])), (queue @ [n]) @ new)"
      "distinct new" "set new = set ns - marked (fmupd n True visited)"
      "marked (fst (BFS_neighbors ns (fmupd n True visited) (queue @ [n])))
         = marked (fmupd n True visited) \<union> set ns"
      by blast
    have "BFS_neighbors (n # ns) visited queue
        = (fst (BFS_neighbors (n # ns) visited queue), queue @ (n # new))"
      using False n(1) by simp
    moreover have "distinct (n # new)" using n(2,3) by simp
    moreover have "set (n # new) = set (n # ns) - marked visited"
      using n(3) False by (auto simp: is_visited_marked)
    moreover have "marked (fst (BFS_neighbors (n # ns) visited queue))
        = marked visited \<union> set (n # ns)"
      using n(4) False by simp
    ultimately show ?thesis
      by (intro exI [of _ "n # new"] conjI)
  qed
qed

lemma BFS_loop_spec:
  assumes "marked visited = set result \<union> set queue"
    and "distinct (result @ queue)"
    and "\<forall>u\<in>set result. set (neighbors_of (vertices g) u) \<subseteq> marked visited"
    and "marked visited \<subseteq> (edges g)\<^sup>* `` {s}"
    and "s \<in> marked visited"
  shows "distinct (BFS_loop g visited queue result)
     \<and> set (BFS_loop g visited queue result) = (edges g)\<^sup>* `` {s}"
  using assms
proof (induction g visited queue result rule: BFS_loop.induct)
  case (1 g visited result)
  have "(edges g)\<^sup>* `` {s} \<subseteq> set result"
    using "1.prems"(1,3,5) by (intro closed_reach) simp_all
  with "1.prems"(1,2,4) show ?case by auto
next
  case (2 g visited vertex queue result)
  let ?ns = "neighbors_of (vertices g) vertex"
  obtain visited' queue' where
    r: "BFS_neighbors ?ns visited queue = (visited', queue')"
    by (cases "BFS_neighbors ?ns visited queue")
  from BFS_neighbors_spec [of ?ns visited queue] r obtain new where
    n: "queue' = queue @ new" "distinct new" "set new = set ?ns - marked visited"
       "marked visited' = marked visited \<union> set ?ns"
    by auto
  have vin: "vertex \<in> (edges g)\<^sup>* `` {s}"
    using "2.prems"(1,4) by auto
  have a1: "marked visited' = set (result @ [vertex]) \<union> set queue'"
    using n(1,3,4) "2.prems"(1) by auto
  have a2: "distinct ((result @ [vertex]) @ queue')"
    using n(1,2,3) "2.prems"(1,2) by auto
  have a3: "\<forall>u\<in>set (result @ [vertex]). set (neighbors_of (vertices g) u) \<subseteq> marked visited'"
    using n(4) "2.prems"(3) by auto
  have a4: "marked visited' \<subseteq> (edges g)\<^sup>* `` {s}"
    using n(4) "2.prems"(4) reach_step [OF vin] by auto
  have a5: "s \<in> marked visited'"
    using n(4) "2.prems"(5) by simp
  from "2.IH" [OF r [symmetric] a1 a2 a3 a4 a5] r show ?case
    by simp
qed

lemma BFS_reachable:
  "distinct (BFS g s) \<and> set (BFS g s) = (edges g)\<^sup>* `` {s}"
  unfolding BFS_def
  by (rule BFS_loop_spec) simp_all

subsection \<open>DFS\<close>

lemma extends_refl: "extends g st st []"
  by (simp add: extends_def)

lemma extends_trans:
  assumes "extends g st st1 new1" and "extends g st1 st2 new2"
  shows "extends g st st2 (new1 @ new2)"
  using assms unfolding extends_def by (auto simp: Un_assoc) blast+

lemma extends_marked: "extends g st st' new \<Longrightarrow> marked (fst st) \<subseteq> marked (fst st')"
  by (auto simp: extends_def)

lemma dfs_spec:
  "v \<notin> marked (fst st) \<Longrightarrow>
     \<exists>new. extends g st (dfsUtil g v st) new \<and> v \<in> set new
       \<and> set new \<subseteq> (edges g)\<^sup>* `` {v}"
  "\<exists>new. extends g st (dfsUtil_neighbors g ns st) new
       \<and> set ns \<subseteq> marked (fst (dfsUtil_neighbors g ns st))
       \<and> set new \<subseteq> (edges g)\<^sup>* `` set ns"
proof (induction g v st and g ns st rule: dfsUtil_dfsUtil_neighbors.induct)
  case (1 g vertex visited result)
  let ?ns = "neighbors_of (vertices g) vertex"
  let ?st1 = "(fmupd vertex True visited, result @ [vertex])"
  from "1.IH" obtain new where
    n: "extends g ?st1 (dfsUtil_neighbors g ?ns ?st1) new"
       "set ?ns \<subseteq> marked (fst (dfsUtil_neighbors g ?ns ?st1))"
       "set new \<subseteq> (edges g)\<^sup>* `` set ?ns"
    by blast
  have "extends g (visited, result) (dfsUtil g vertex (visited, result)) (vertex # new)"
    using n(1,2) "1.prems" unfolding extends_def by auto blast+
  moreover have "set ?ns \<subseteq> (edges g)\<^sup>* `` {vertex}"
    by (rule reach_step) simp
  then have "(edges g)\<^sup>* `` set ?ns \<subseteq> (edges g)\<^sup>* `` {vertex}"
    by (auto intro: rtrancl_trans)
  with n(3) have "set (vertex # new) \<subseteq> (edges g)\<^sup>* `` {vertex}"
    by auto
  ultimately show ?case
    by (intro exI [of _ "vertex # new"]) simp
next
  case (2 g visited result)
  show ?case
    by (intro exI [of _ "[]"]) (simp add: extends_refl)
next
  case (3 g neighbor rest visited result)
  let ?st = "(visited, result)"
  show ?case
  proof (cases "is_visited visited neighbor")
    case True
    from "3.IH"(3) True obtain new where
      n: "extends g ?st (dfsUtil_neighbors g rest ?st) new"
         "set rest \<subseteq> marked (fst (dfsUtil_neighbors g rest ?st))"
         "set new \<subseteq> (edges g)\<^sup>* `` set rest"
      by blast
    have "neighbor \<in> marked (fst (dfsUtil_neighbors g rest ?st))"
      using extends_marked [OF n(1)] True by (auto simp: is_visited_marked)
    moreover have "set new \<subseteq> (edges g)\<^sup>* `` set (neighbor # rest)"
      using n(3) by auto
    ultimately show ?thesis
      using True n(1,2) by (intro exI [of _ new]) simp
  next
    case False
    let ?st1 = "dfsUtil g neighbor ?st"
    have "neighbor \<notin> marked (fst ?st)"
      using False by (simp add: is_visited_marked)
    from "3.IH"(1) [OF False this] obtain new1 where
      n1: "extends g ?st ?st1 new1" "neighbor \<in> set new1"
          "set new1 \<subseteq> (edges g)\<^sup>* `` {neighbor}"
      by blast
    from "3.IH"(2) [OF False] obtain new2 where
      n2: "extends g ?st1 (dfsUtil_neighbors g rest ?st1) new2"
          "set rest \<subseteq> marked (fst (dfsUtil_neighbors g rest ?st1))"
          "set new2 \<subseteq> (edges g)\<^sup>* `` set rest"
      by blast
    have "extends g ?st (dfsUtil_neighbors g rest ?st1) (new1 @ new2)"
      using n1(1) n2(1) by (rule extends_trans)
    moreover have "neighbor \<in> marked (fst (dfsUtil_neighbors g rest ?st1))"
      using n1(1,2) extends_marked [OF n2(1)] by (auto simp: extends_def)
    moreover have "set (new1 @ new2) \<subseteq> (edges g)\<^sup>* `` set (neighbor # rest)"
      using n1(3) n2(3) by auto
    ultimately show ?thesis
      using False n2(2) by (intro exI [of _ "new1 @ new2"]) simp
  qed
qed

lemma DFS_reachable:
  "distinct (DFS g s) \<and> set (DFS g s) = (edges g)\<^sup>* `` {s}"
proof -
  have "s \<notin> marked (fst (fmempty, []))"
    by simp
  from dfs_spec(1) [OF this, of g] obtain new where
    n: "extends g (fmempty, []) (dfsUtil g s (fmempty, [])) new" "s \<in> set new"
       "set new \<subseteq> (edges g)\<^sup>* `` {s}"
    by blast
  from n(1) have new: "DFS g s = new" "distinct new"
    "\<forall>u\<in>set new. set (neighbors_of (vertices g) u) \<subseteq> set new"
    unfolding extends_def DFS_def by (auto simp del: dfsUtil.simps)
  from closed_reach [OF n(2) new(3)] n(3) new(1,2) show ?thesis
    by auto
qed

subsection \<open>Graphs built by calls\<close>

lemma edges_NewGraph: "edges NewGraph = {}"
  by (simp add: edges_def NewGraph_def neighbors_of_def)

lemma edges_AddVertex: "edges (AddVertex g v) = edges g"
  by (auto simp: edges_def AddVertex_def neighbors_of_def split: option.splits if_splits)

lemma edges_AddEdge: "edges (AddEdge g a b) = edges g \<union> {(a, b), (b, a)}"
  by (auto simp: edges_def AddEdge_def Let_def neighbors_of_def split: option.splits if_splits)

lemma edges_foldl:
  "edges (foldl apply_call g calls) = edges g \<union> edge_calls calls"
proof (induction calls arbitrary: g)
  case Nil
  show ?case by (simp add: edge_calls_def)
next
  case (Cons c calls)
  show ?case
    by (cases c) (auto simp: Cons.IH edges_AddVertex edges_AddEdge edge_calls_def)
qed

lemma edges_build: "edges (build calls) = edge_calls calls"
  by (simp add: build_def edges_foldl edges_NewGraph)

text \<open>
  C6. For the graph built from \<open>NewGraph()\<close> by any sequence of \<open>AddVertex\<close> and
  \<open>AddEdge\<close> calls and for any start vertex, \<open>BFS\<close> and \<open>DFS\<close> each return a list
  without repetition whose elements are exactly the vertices reachable from the start
  along the edges named by the \<open>AddEdge\<close> calls, taken in both directions (lemma
  \<open>edges_AddEdge\<close>: a call adds each endpoint to the other's adjacency list).
\<close>

theorem C6_BFS_DFS_visit_reachable_once:
  "distinct (BFS (build calls) start)
   \<and> set (BFS (build calls) start) = (edge_calls calls)\<^sup>* `` {start}
   \<and> distinct (DFS (build calls) start)
   \<and> set (DFS (build calls) start) = (edge_calls calls)\<^sup>* `` {start}"
  using BFS_reachable [of "build calls" start] DFS_reachable [of "build calls" start]
  by (simp add: edges_build)


text \<open>The graph of the file's \<open>main\<close>.\<close>

lemma BFS_DFS_example:
  "BFS (build [AddEdge_call 0 1, AddEdge_call 1 2, AddEdge_call 0 3, AddEdge_call 1 4,
      AddEdge_call 2 5, AddEdge_call 3 4, AddEdge_call 4 5]) 0 = [0, 1, 3, 2, 4, 5]"
  "DFS (build [AddEdge_call 0 1, AddEdge_call 1 2, AddEdge_call 0 3, AddEdge_call 1 4,
      AddEdge_call 2 5, AddEdge_call 3 4, AddEdge_call 4 5]) 0 = [0, 1, 2, 5, 4, 3]"
  by (simp_all add: build_def BFS_def DFS_def AddEdge_def NewGraph_def neighbors_of_def
      is_visited_def Let_def)

section \<open>Sorting: results\<close>

declare BubbleSort_inner.simps [simp del]
declare BubbleSort_outer.simps [simp del]
declare InsertionSort_outer.simps [simp del]

subsection \<open>Arrays as concatenations\<close>

lemma in_range_append [simp]: "in_range (P @ x # R) (int (length P))"
  by (simp add: in_range_def)

lemma in_range_append1 [simp]: "in_range (P @ x # y # R) (int (length P) + 1)"
  by (simp add: in_range_def)

lemma at_append [simp]: "at (P @ x # R) (int (length P)) = x"
  by (simp add: at_def)

lemma at_append1 [simp]: "at (P @ x # y # R) (int (length P) + 1) = y"
  by (simp add: at_def nat_add_distrib nth_append)

lemma put_append [simp]: "put (P @ x # R) (int (length P)) v = P @ v # R"
  by (simp add: put_def)

lemma put_append1 [simp]: "put (P @ x # y # R) (int (length P) + 1) v = P @ x # v # R"
  by (simp add: put_def nat_add_distrib list_update_append)

lemma swap_adjacent:
  "swap (P @ x # y # R) (int (length P)) (int (length P) + 1) = P @ y # x # R"
  by (simp add: swap_def)

lemma sorted_le_last: "sorted xs \<Longrightarrow> z \<in> set xs \<Longrightarrow> z \<le> last (xs :: int list)"
  by (induction xs) auto

subsection \<open>BubbleSort\<close>

lemma BubbleSort_inner_pass:
  assumes "n = int (length (P @ x # Q @ S))" and "i = int (length S)"
  shows "\<exists>R mx sw'.
           BubbleSort_inner (P @ x # Q @ S) n i (int (length P)) sw = Inr (P @ R @ mx # S, sw')
           \<and> mset (R @ [mx]) = mset (x # Q) \<and> (\<forall>y\<in>set R. y \<le> mx) \<and> x \<le> mx
           \<and> (\<not> sw' \<longrightarrow> \<not> sw \<and> R @ [mx] = x # Q \<and> sorted (x # Q))"
  using assms
proof (induction Q arbitrary: P x sw)
  case Nil
  then have "BubbleSort_inner (P @ x # [] @ S) n i (int (length P)) sw = Inr (P @ [] @ x # S, sw)"
    by (subst BubbleSort_inner.simps) simp
  then show ?case
    by (intro exI [of _ "[]"] exI [of _ x] exI [of _ sw]) simp
next
  case (Cons q Q)
  have lt: "int (length P) < n - i - 1"
    using Cons.prems by simp
  have idx: "int (length (P @ [z])) = int (length P) + 1" for z :: int
    by simp
  show ?case
  proof (cases "x > q")
    case True
    have step: "BubbleSort_inner (P @ x # (q # Q) @ S) n i (int (length P)) sw =
        BubbleSort_inner ((P @ [q]) @ x # Q @ S) n i (int (length (P @ [q]))) True"
      unfolding idx using lt True
      by (subst BubbleSort_inner.simps) (simp add: swap_adjacent)
    have "\<exists>R mx sw'.
        BubbleSort_inner ((P @ [q]) @ x # Q @ S) n i (int (length (P @ [q]))) True
            = Inr ((P @ [q]) @ R @ mx # S, sw')
        \<and> mset (R @ [mx]) = mset (x # Q) \<and> (\<forall>y\<in>set R. y \<le> mx) \<and> x \<le> mx
        \<and> (\<not> sw' \<longrightarrow> \<not> True \<and> R @ [mx] = x # Q \<and> sorted (x # Q))"
      by (rule Cons.IH) (use Cons.prems in simp_all)
    then obtain R mx sw' where
      r: "BubbleSort_inner ((P @ [q]) @ x # Q @ S) n i (int (length (P @ [q]))) True
            = Inr ((P @ [q]) @ R @ mx # S, sw')"
         "mset (R @ [mx]) = mset (x # Q)" "\<forall>y\<in>set R. y \<le> mx" "x \<le> mx"
         "\<not> sw' \<longrightarrow> \<not> True \<and> R @ [mx] = x # Q \<and> sorted (x # Q)"
      by blast
    have "BubbleSort_inner (P @ x # (q # Q) @ S) n i (int (length P)) sw
            = Inr (P @ (q # R) @ mx # S, sw')"
      using step r(1) by simp
    moreover have "mset ((q # R) @ [mx]) = mset (x # q # Q)"
      using r(2) by simp
    moreover have "\<forall>y\<in>set (q # R). y \<le> mx"
      using r(3,4) True by simp
    moreover have "\<not> sw' \<longrightarrow> \<not> sw \<and> (q # R) @ [mx] = x # q # Q \<and> sorted (x # q # Q)"
      using r(5) by simp
    ultimately show ?thesis
      using r(4) by (intro exI [of _ "q # R"] exI [of _ mx] exI [of _ sw'] conjI)
  next
    case False
    have step: "BubbleSort_inner (P @ x # (q # Q) @ S) n i (int (length P)) sw =
        BubbleSort_inner ((P @ [x]) @ q # Q @ S) n i (int (length (P @ [x]))) sw"
      unfolding idx using lt False
      by (subst BubbleSort_inner.simps) simp
    have "\<exists>R mx sw'.
        BubbleSort_inner ((P @ [x]) @ q # Q @ S) n i (int (length (P @ [x]))) sw
            = Inr ((P @ [x]) @ R @ mx # S, sw')
        \<and> mset (R @ [mx]) = mset (q # Q) \<and> (\<forall>y\<in>set R. y \<le> mx) \<and> q \<le> mx
        \<and> (\<not> sw' \<longrightarrow> \<not> sw \<and> R @ [mx] = q # Q \<and> sorted (q # Q))"
      by (rule Cons.IH) (use Cons.prems in simp_all)
    then obtain R mx sw' where
      r: "BubbleSort_inner ((P @ [x]) @ q # Q @ S) n i (int (length (P @ [x]))) sw
            = Inr ((P @ [x]) @ R @ mx # S, sw')"
         "mset (R @ [mx]) = mset (q # Q)" "\<forall>y\<in>set R. y \<le> mx" "q \<le> mx"
         "\<not> sw' \<longrightarrow> \<not> sw \<and> R @ [mx] = q # Q \<and> sorted (q # Q)"
      by blast
    have "BubbleSort_inner (P @ x # (q # Q) @ S) n i (int (length P)) sw
            = Inr (P @ (x # R) @ mx # S, sw')"
      using step r(1) by simp
    moreover have "mset ((x # R) @ [mx]) = mset (x # q # Q)"
      using r(2) by simp
    moreover have "\<forall>y\<in>set (x # R). y \<le> mx"
      using r(3,4) False by simp
    moreover have "x \<le> mx" using r(4) False by simp
    moreover have "\<not> sw' \<longrightarrow> \<not> sw \<and> (x # R) @ [mx] = x # q # Q \<and> sorted (x # q # Q)"
      using r(5) False by auto
    ultimately show ?thesis
      by (intro exI [of _ "x # R"] exI [of _ mx] exI [of _ sw'] conjI)
  qed
qed

lemma BubbleSort_outer_sorts:
  assumes "n = int (length (R @ S))" and "i = int (length S)"
    and "sorted S" and "\<forall>x\<in>set R. \<forall>y\<in>set S. x \<le> y"
  shows "\<exists>a. BubbleSort_outer (R @ S) n i = Inr a \<and> sorted a \<and> mset a = mset (R @ S)"
  using assms
proof (induction "length R" arbitrary: R S i rule: less_induct)
  case less
  show ?case
  proof (cases "i < n - 1")
    case False
    then have "length R \<le> 1" using less.prems by simp
    then have "sorted R"
      by (cases R) (auto simp: le_Suc_eq)
    with less.prems have "sorted (R @ S)"
      by (simp add: sorted_append)
    with False show ?thesis
      by (subst BubbleSort_outer.simps) simp
  next
    case True
    then obtain x Q where R: "R = x # Q"
      using less.prems by (cases R) auto
    from BubbleSort_inner_pass [of n "[]" x Q S i False] less.prems R obtain R' mx sw' where
      r: "BubbleSort_inner (R @ S) n i 0 False = Inr (R' @ mx # S, sw')"
         "mset (R' @ [mx]) = mset R" "\<forall>y\<in>set R'. y \<le> mx"
         "\<not> sw' \<longrightarrow> R' @ [mx] = R \<and> sorted R"
      by auto
    from mset_eq_setD [OF r(2)] have sets: "set R = insert mx (set R')"
      by simp
    from mset_eq_length [OF r(2)] have len: "length R = Suc (length R')"
      by simp
    show ?thesis
    proof (cases sw')
      case False
      with r(4) have same: "R' @ mx # S = R @ S" and "sorted R" by auto
      with less.prems(3,4) have "sorted (R @ S)"
        by (simp add: sorted_append)
      with r(1) True False same show ?thesis
        by (subst BubbleSort_outer.simps) simp
    next
      case sw: True
      have "n = int (length (R' @ mx # S))"
        using less.prems(1) len by simp
      moreover have "i + 1 = int (length (mx # S))"
        using less.prems(2) by simp
      moreover have "sorted (mx # S)"
        using less.prems(3,4) sets by auto
      moreover have "\<forall>x\<in>set R'. \<forall>y\<in>set (mx # S). x \<le> y"
        using less.prems(4) sets r(3) by auto
      ultimately have "\<exists>a. BubbleSort_outer (R' @ mx # S) n (i + 1) = Inr a \<and> sorted a
           \<and> mset a = mset (R' @ mx # S)"
        using len by (intro less.hyps) simp_all
      then obtain a where
        a: "BubbleSort_outer (R' @ mx # S) n (i + 1) = Inr a" "sorted a"
           "mset a = mset (R' @ mx # S)"
        by blast
      have "mset (R' @ mx # S) = mset (R @ S)"
        using r(2) by simp
      with a r(1) True sw show ?thesis
        by (subst BubbleSort_outer.simps) simp
    qed
  qed
qed

lemma BubbleSort_sorts:
  "\<exists>a. BubbleSort arr = Inr a \<and> sorted a \<and> mset a = mset arr"
  using BubbleSort_outer_sorts [of "int (length arr)" arr "[]" 0]
  by (simp add: BubbleSort_def)

subsection \<open>InsertionSort\<close>

lemma InsertionSort_inner_shift:
  "\<exists>P1 P2 y. P = P1 @ P2
      \<and> InsertionSort_inner (P @ x # S) key (int (length P) - 1)
          = Inr (P1 @ y # P2 @ S, int (length P1) - 1)
      \<and> (\<forall>z\<in>set P2. key < z) \<and> (P1 \<noteq> [] \<longrightarrow> last P1 \<le> key)"
proof (induction P arbitrary: x S rule: rev_induct)
  case Nil
  have "InsertionSort_inner ([] @ x # S) key (int (length ([] :: int list)) - 1)
          = Inr ([] @ x # [] @ S, int (length ([] :: int list)) - 1)"
    by (subst InsertionSort_inner.simps) simp
  then show ?case
    by (intro exI [of _ "[]"] exI [of _ x]) simp
next
  case (snoc p P)
  have idx: "int (length (P @ [p])) - 1 = int (length P)" by simp
  show ?case
  proof (cases "p > key")
    case True
    have step: "InsertionSort_inner ((P @ [p]) @ x # S) key (int (length (P @ [p])) - 1)
            = InsertionSort_inner (P @ p # p # S) key (int (length P) - 1)"
      unfolding idx using True
      by (subst InsertionSort_inner.simps) simp
    from snoc.IH [of p "p # S"] obtain P1 P2 y where
      ih: "P = P1 @ P2"
      "InsertionSort_inner (P @ p # p # S) key (int (length P) - 1)
          = Inr (P1 @ y # P2 @ p # S, int (length P1) - 1)"
      "\<forall>z\<in>set P2. key < z" "P1 \<noteq> [] \<longrightarrow> last P1 \<le> key"
      by blast
    have "P @ [p] = P1 @ (P2 @ [p])"
      using ih(1) by simp
    moreover have "InsertionSort_inner ((P @ [p]) @ x # S) key (int (length (P @ [p])) - 1)
          = Inr (P1 @ y # (P2 @ [p]) @ S, int (length P1) - 1)"
      using step ih(2) by simp
    moreover have "\<forall>z\<in>set (P2 @ [p]). key < z"
      using ih(3) True by simp
    ultimately show ?thesis
      using ih(4) by (intro exI [of _ P1] exI [of _ "P2 @ [p]"] exI [of _ y] conjI)
  next
    case False
    have "InsertionSort_inner ((P @ [p]) @ x # S) key (int (length (P @ [p])) - 1)
            = Inr ((P @ [p]) @ x # [] @ S, int (length (P @ [p])) - 1)"
      unfolding idx using False
      by (subst InsertionSort_inner.simps) simp
    moreover have "P @ [p] = (P @ [p]) @ []" by simp
    moreover have "P @ [p] \<noteq> [] \<longrightarrow> last (P @ [p]) \<le> key"
      using False by simp
    moreover have "\<forall>z\<in>set ([] :: int list). key < z" by simp
    ultimately show ?thesis
      by (intro exI [of _ "P @ [p]"] exI [of _ "[]"] exI [of _ x] conjI)
  qed
qed

lemma InsertionSort_outer_sorts:
  assumes "sorted P" and "i = int (length P)"
  shows "\<exists>a. InsertionSort_outer (P @ U) i = Inr a \<and> sorted a \<and> mset a = mset (P @ U)"
  using assms
proof (induction U arbitrary: P i)
  case Nil
  then show ?case
    by (subst InsertionSort_outer.simps) simp
next
  case (Cons u U)
  from InsertionSort_inner_shift [of P u U u] obtain P1 P2 y where
    s: "P = P1 @ P2"
       "InsertionSort_inner (P @ u # U) u (int (length P) - 1)
          = Inr (P1 @ y # P2 @ U, int (length P1) - 1)"
       "\<forall>z\<in>set P2. u < z" "P1 \<noteq> [] \<longrightarrow> last P1 \<le> u"
    by blast
  have "\<forall>z\<in>set P1. z \<le> u"
  proof
    fix z assume z: "z \<in> set P1"
    then have ne: "P1 \<noteq> []" by auto
    from Cons.prems(1) s(1) have "sorted P1" by (simp add: sorted_append)
    then have "z \<le> last P1"
      using z by (rule sorted_le_last)
    with s(4) ne show "z \<le> u" by simp
  qed
  with Cons.prems(1) s(1,3) have sorted': "sorted (P1 @ u # P2)"
    by (auto simp: sorted_append)
  have "InsertionSort_outer (P @ u # U) i = InsertionSort_outer ((P1 @ u # P2) @ U) (i + 1)"
    using Cons.prems(2) s(2)
    by (subst InsertionSort_outer.simps) (simp add: in_range_def)
  moreover from Cons.IH [OF sorted', of "i + 1"] Cons.prems(2) s(1) obtain a where
    "InsertionSort_outer ((P1 @ u # P2) @ U) (i + 1) = Inr a" "sorted a"
    "mset a = mset ((P1 @ u # P2) @ U)"
    by auto
  ultimately show ?case using s(1) by auto
qed

lemma InsertionSort_sorts:
  "\<exists>a. InsertionSort arr = Inr a \<and> sorted a \<and> mset a = mset arr"
proof (cases arr)
  case Nil
  then show ?thesis
    by (simp add: InsertionSort_def InsertionSort_outer.simps)
next
  case (Cons x U)
  with InsertionSort_outer_sorts [of "[x]" 1 U] show ?thesis
    by (simp add: InsertionSort_def)
qed


subsection \<open>QuickSort\<close>

lemma swap_self: "swap (X @ a # W) (int (length X)) (int (length X)) = X @ a # W"
  by (simp add: swap_def)

lemma swap_far:
  "swap (X @ a # Y @ b # W) (int (length X)) (int (length X) + 1 + int (length Y))
     = X @ b # Y @ a # W"
proof -
  have n: "nat (int (length X) + 1 + int (length Y)) = length X + Suc (length Y)"
    by simp
  show ?thesis
    unfolding swap_def put_def at_def n
    by (simp add: nth_append list_update_append)
qed

lemma in_range_far: "in_range (X @ a # Y @ b # W) (int (length X) + 1 + int (length Y))"
  by (simp add: in_range_def)

lemma at_far: "at (X @ a # Y @ b # W) (int (length X) + 1 + int (length Y)) = b"
proof -
  have n: "nat (int (length X) + 1 + int (length Y)) = length X + Suc (length Y)"
    by simp
  show ?thesis
    unfolding at_def n by (simp add: nth_append)
qed

lemma partition_loop_spec:
  assumes "\<forall>x\<in>set L. x \<le> p" and "\<forall>x\<in>set G. p < x"
  shows "\<exists>L' G'.
      partition_loop (A @ L @ G @ U @ p # Z) p (int (length (A @ L @ G @ U)))
          (int (length (A @ L)) - 1) (int (length (A @ L @ G)))
        = Inr (A @ L' @ G' @ p # Z, int (length (A @ L')) - 1)
      \<and> mset (L' @ G') = mset (L @ G @ U)
      \<and> (\<forall>x\<in>set L'. x \<le> p) \<and> (\<forall>x\<in>set G'. p < x)"
  using assms
proof (induction U arbitrary: L G)
  case Nil
  have "partition_loop (A @ L @ G @ [] @ p # Z) p (int (length (A @ L @ G @ [])))
          (int (length (A @ L)) - 1) (int (length (A @ L @ G)))
        = Inr (A @ L @ G @ p # Z, int (length (A @ L)) - 1)"
    by (subst partition_loop.simps) simp
  with Nil show ?case
    by (intro exI [of _ L] exI [of _ G]) simp
next
  case (Cons u U)
  let ?arr = "A @ L @ G @ (u # U) @ p # Z"
  let ?high = "int (length (A @ L @ G @ u # U))"
  let ?j = "int (length (A @ L @ G))"
  have jlt: "?j < ?high" by simp
  have arr_j: "?arr = (A @ L @ G) @ u # (U @ p # Z)" by simp
  have inr_j: "in_range ?arr ?j"
    unfolding arr_j by (rule in_range_append)
  have at_j: "at ?arr ?j = u"
    unfolding arr_j by (rule at_append)
  show ?case
  proof (cases "u \<le> p")
    case False
    have step: "partition_loop ?arr p ?high (int (length (A @ L)) - 1) ?j
        = partition_loop (A @ L @ (G @ [u]) @ U @ p # Z) p
            (int (length (A @ L @ (G @ [u]) @ U)))
            (int (length (A @ L)) - 1) (int (length (A @ L @ (G @ [u]))))"
      using jlt inr_j at_j False
      by (subst partition_loop.simps) (simp add: add.commute)
    have "\<forall>x\<in>set (G @ [u]). p < x"
      using Cons.prems(2) False by simp
    from Cons.IH [OF Cons.prems(1) this] obtain L' G' where
      r: "partition_loop (A @ L @ (G @ [u]) @ U @ p # Z) p
            (int (length (A @ L @ (G @ [u]) @ U)))
            (int (length (A @ L)) - 1) (int (length (A @ L @ (G @ [u]))))
          = Inr (A @ L' @ G' @ p # Z, int (length (A @ L')) - 1)"
        "mset (L' @ G') = mset (L @ (G @ [u]) @ U)"
        "\<forall>x\<in>set L'. x \<le> p" "\<forall>x\<in>set G'. p < x"
      by blast
    have "partition_loop ?arr p (int (length (A @ L @ G @ u # U)))
            (int (length (A @ L)) - 1) ?j
          = Inr (A @ L' @ G' @ p # Z, int (length (A @ L')) - 1)"
      using step r(1) by simp
    moreover have "mset (L' @ G') = mset (L @ G @ u # U)"
      using r(2) by simp
    ultimately show ?thesis
      using r(3,4) by (intro exI [of _ L'] exI [of _ G'] conjI)
  next
    case True
    have i1: "int (length (A @ L)) - 1 + 1 = int (length (A @ L))" by simp
    have swapped: "in_range ?arr (int (length (A @ L))) \<and>
        (\<exists>G1. swap ?arr (int (length (A @ L))) ?j = A @ (L @ [u]) @ G1 @ U @ p # Z
            \<and> mset G1 = mset G \<and> length G1 = length G)"
    proof (cases G)
      case Nil
      have "?arr = (A @ L) @ u # (U @ p # Z)" using Nil by simp
      then have "in_range ?arr (int (length (A @ L)))"
        "swap ?arr (int (length (A @ L))) (int (length (A @ L))) = (A @ L) @ u # (U @ p # Z)"
        by (simp_all only: in_range_append swap_self)
      with Nil show ?thesis
        by (intro conjI exI [of _ "[]"]) simp_all
    next
      case (Cons g G0)
      have e: "?arr = (A @ L) @ g # G0 @ u # (U @ p # Z)" using Cons by simp
      have j: "?j = int (length (A @ L)) + 1 + int (length G0)" using Cons by simp
      have "in_range ?arr (int (length (A @ L)))"
        unfolding e by (rule in_range_append)
      moreover have "swap ?arr (int (length (A @ L))) ?j = (A @ L) @ u # G0 @ g # (U @ p # Z)"
        unfolding e j by (rule swap_far)
      ultimately show ?thesis
        using Cons by (intro conjI exI [of _ "G0 @ [g]"]) simp_all
    qed
    then obtain G1 where
      g1: "in_range ?arr (int (length (A @ L)))"
          "swap ?arr (int (length (A @ L))) ?j = A @ (L @ [u]) @ G1 @ U @ p # Z"
          "mset G1 = mset G" "length G1 = length G"
      by blast
    have step: "partition_loop ?arr p ?high (int (length (A @ L)) - 1) ?j
        = partition_loop (A @ (L @ [u]) @ G1 @ U @ p # Z) p
            (int (length (A @ (L @ [u]) @ G1 @ U)))
            (int (length (A @ (L @ [u]))) - 1) (int (length (A @ (L @ [u]) @ G1)))"
      using jlt inr_j at_j True g1(1,4)
      by (subst partition_loop.simps) (simp only: i1 g1(2) if_True if_False not_True_eq_False
          not_not, simp add: add.commute)
    have "\<forall>x\<in>set (L @ [u]). x \<le> p" using Cons.prems(1) True by simp
    moreover have "\<forall>x\<in>set G1. p < x"
      using Cons.prems(2) mset_eq_setD [OF g1(3)] by simp
    ultimately obtain L' G' where
      r: "partition_loop (A @ (L @ [u]) @ G1 @ U @ p # Z) p
            (int (length (A @ (L @ [u]) @ G1 @ U)))
            (int (length (A @ (L @ [u]))) - 1) (int (length (A @ (L @ [u]) @ G1)))
          = Inr (A @ L' @ G' @ p # Z, int (length (A @ L')) - 1)"
        "mset (L' @ G') = mset ((L @ [u]) @ G1 @ U)"
        "\<forall>x\<in>set L'. x \<le> p" "\<forall>x\<in>set G'. p < x"
      using Cons.IH [of "L @ [u]" G1] by blast
    have "partition_loop ?arr p (int (length (A @ L @ G @ u # U)))
            (int (length (A @ L)) - 1) ?j
          = Inr (A @ L' @ G' @ p # Z, int (length (A @ L')) - 1)"
      using step r(1) by simp
    moreover have "mset (L' @ G') = mset (L @ G @ u # U)"
      using r(2) g1(3) by simp
    ultimately show ?thesis
      using r(3,4) by (intro exI [of _ L'] exI [of _ G'] conjI)
  qed
qed


lemma partition_qs_spec:
  "\<exists>L' G'.
      partition_qs (A @ U @ p # Z) (int (length A)) (int (length (A @ U)))
        = Inr (A @ L' @ p # G' @ Z, int (length (A @ L')))
      \<and> mset (L' @ G') = mset U \<and> (\<forall>x\<in>set L'. x \<le> p) \<and> (\<forall>x\<in>set G'. p < x)"
proof -
  let ?arr = "A @ U @ p # Z"
  let ?high = "int (length (A @ U))"
  have e: "?arr = (A @ U) @ p # Z" by simp
  have inr: "in_range ?arr ?high" unfolding e by (rule in_range_append)
  have at_high: "at ?arr ?high = p" unfolding e by (rule at_append)
  from partition_loop_spec [of "[]" p "[]" A U Z] obtain L' G' where
    r: "partition_loop ?arr p ?high (int (length A) - 1) (int (length A))
          = Inr (A @ L' @ G' @ p # Z, int (length (A @ L')) - 1)"
       "mset (L' @ G') = mset U" "\<forall>x\<in>set L'. x \<le> p" "\<forall>x\<in>set G'. p < x"
    by auto
  have len: "length (L' @ G') = length U"
    using mset_eq_length [OF r(2)] .
  have fin: "in_range (A @ L' @ G' @ p # Z) (int (length (A @ L'))) \<and>
      in_range (A @ L' @ G' @ p # Z) ?high \<and>
      (\<exists>G1. swap (A @ L' @ G' @ p # Z) (int (length (A @ L'))) ?high = A @ L' @ p # G1 @ Z
          \<and> mset G1 = mset G')"
  proof (cases G')
    case Nil
    have e': "A @ L' @ G' @ p # Z = (A @ L') @ p # Z" using Nil by simp
    have h: "?high = int (length (A @ L'))" using len Nil by simp
    have "in_range (A @ L' @ G' @ p # Z) (int (length (A @ L')))"
      "swap (A @ L' @ G' @ p # Z) (int (length (A @ L'))) (int (length (A @ L')))
         = (A @ L') @ p # Z"
      unfolding e' by (simp_all only: in_range_append swap_self)
    with Nil h show ?thesis
      by (intro conjI exI [of _ "[]"]) simp_all
  next
    case (Cons g G0)
    have e': "A @ L' @ G' @ p # Z = (A @ L') @ g # G0 @ p # Z" using Cons by simp
    have h: "?high = int (length (A @ L')) + 1 + int (length G0)"
      using len Cons by simp
    have "in_range (A @ L' @ G' @ p # Z) (int (length (A @ L')))"
      unfolding e' by (rule in_range_append)
    moreover have "in_range (A @ L' @ G' @ p # Z) ?high"
      unfolding e' h by (rule in_range_far)
    moreover have "swap (A @ L' @ G' @ p # Z) (int (length (A @ L'))) ?high
        = (A @ L') @ p # G0 @ g # Z"
      unfolding e' h by (rule swap_far)
    ultimately show ?thesis
      using Cons by (intro conjI exI [of _ "G0 @ [g]"]) simp_all
  qed
  then obtain G1 where
    g1: "in_range (A @ L' @ G' @ p # Z) (int (length (A @ L')))"
        "in_range (A @ L' @ G' @ p # Z) ?high"
        "swap (A @ L' @ G' @ p # Z) (int (length (A @ L'))) ?high = A @ L' @ p # G1 @ Z"
        "mset G1 = mset G'"
    by blast
  have i1: "int (length (A @ L')) - 1 + 1 = int (length (A @ L'))" by simp
  have "partition_qs ?arr (int (length A)) ?high = Inr (A @ L' @ p # G1 @ Z, int (length (A @ L')))"
    unfolding partition_qs_def using inr
    by (simp only: at_high r(1) sum.case prod.case i1 g1 if_False not_True_eq_False
        simp_thms)
  moreover have "mset (L' @ G1) = mset U" using r(2) g1(4) by simp
  moreover have "\<forall>x\<in>set G1. p < x" using r(4) mset_eq_setD [OF g1(4)] by simp
  ultimately show ?thesis
    using r(3) by (intro exI [of _ L'] exI [of _ G1] conjI)
qed

lemma quickSortHelper_spec:
  "\<exists>M'. quickSortHelper (A @ M @ Z) (int (length A)) (int (length (A @ M)) - 1)
           = Inr (A @ M' @ Z) \<and> sorted M' \<and> mset M' = mset M"
proof (induction "length M" arbitrary: A M Z rule: less_induct)
  case less
  show ?case
  proof (cases "length M \<le> 1")
    case True
    then have "sorted M" by (cases M) (auto simp: le_Suc_eq)
    moreover have "quickSortHelper (A @ M @ Z) (int (length A)) (int (length (A @ M)) - 1)
        = Inr (A @ M @ Z)"
      using True by (subst quickSortHelper.simps) simp
    ultimately show ?thesis by blast
  next
    case False
    then have "M \<noteq> []" by auto
    then obtain U p where M: "M = U @ [p]"
      by (metis append_butlast_last_id)
    have lt: "int (length A) < int (length (A @ M)) - 1"
      using False by simp
    have high: "int (length (A @ M)) - 1 = int (length (A @ U))"
      using M by simp
    from partition_qs_spec [of A U p Z] obtain L G where
      pq: "partition_qs (A @ U @ p # Z) (int (length A)) (int (length (A @ U)))
             = Inr (A @ L @ p # G @ Z, int (length (A @ L)))"
          "mset (L @ G) = mset U" "\<forall>x\<in>set L. x \<le> p" "\<forall>x\<in>set G. p < x"
      by blast
    have lenLG: "length L + length G = length U"
      using mset_eq_length [OF pq(2)] by simp
    have "length L < length M" using lenLG M by simp
    from less.hyps [OF this, of A "p # G @ Z"] obtain L' where
      l: "quickSortHelper (A @ L @ p # G @ Z) (int (length A)) (int (length (A @ L)) - 1)
            = Inr (A @ L' @ p # G @ Z)" "sorted L'" "mset L' = mset L"
      by blast
    have lenL: "length L' = length L" using mset_eq_length [OF l(3)] .
    have "length G < length M" using lenLG M by simp
    from less.hyps [OF this, of "A @ L' @ [p]" Z] obtain G' where
      g: "quickSortHelper ((A @ L' @ [p]) @ G @ Z) (int (length (A @ L' @ [p])))
            (int (length ((A @ L' @ [p]) @ G)) - 1)
            = Inr ((A @ L' @ [p]) @ G' @ Z)" "sorted G'" "mset G' = mset G"
      by blast
    have idx1: "int (length (A @ L)) + 1 = int (length (A @ L' @ [p]))"
      using lenL by simp
    have idx2: "int (length (A @ U)) = int (length ((A @ L' @ [p]) @ G)) - 1"
      using lenL lenLG by simp
    have arr2: "A @ L' @ p # G @ Z = (A @ L' @ [p]) @ G @ Z" by simp
    have "quickSortHelper (A @ M @ Z) (int (length A)) (int (length (A @ M)) - 1)
        = Inr ((A @ L' @ [p]) @ G' @ Z)"
      using lt unfolding high
      apply (subst quickSortHelper.simps)
      apply (simp only: M append_assoc append_Cons append_Nil)
      apply (simp only: pq(1) sum.case prod.case l(1) idx1)
      apply (simp only: arr2 idx2 g(1))
      apply (simp add: M)
      done
    then have "quickSortHelper (A @ M @ Z) (int (length A)) (int (length (A @ M)) - 1)
        = Inr (A @ (L' @ p # G') @ Z)"
      by simp
    moreover have "sorted (L' @ p # G')"
      using l(2) g(2) pq(3,4) mset_eq_setD [OF l(3)] mset_eq_setD [OF g(3)]
      by (fastforce simp: sorted_append)
    moreover have "mset (L' @ p # G') = mset M"
      using l(3) g(3) pq(2) M by simp
    ultimately show ?thesis by blast
  qed
qed

lemma QuickSort_sorts:
  "\<exists>a. QuickSort arr = Inr a \<and> sorted a \<and> mset a = mset arr"
  using quickSortHelper_spec [of "[]" arr "[]"]
  by (simp add: QuickSort_def)


subsection \<open>MergeSort\<close>

lemma merge_loop_spec:
  "\<exists>i' j' res'.
      merge_loop (L1 @ L2) (R1 @ R2) (int (length L1)) (int (length R1)) res = Inr (i', j', res')
      \<and> slice_ok (L1 @ L2) i' \<and> slice_ok (R1 @ R2) j'
      \<and> mset (res' @ drop (nat i') (L1 @ L2) @ drop (nat j') (R1 @ R2)) = mset (res @ L2 @ R2)
      \<and> (sorted (res @ L2) \<and> sorted (res @ R2)
           \<longrightarrow> sorted (res' @ drop (nat i') (L1 @ L2) @ drop (nat j') (R1 @ R2)))"
proof (induction "length L2 + length R2" arbitrary: L1 L2 R1 R2 res rule: less_induct)
  case less
  show ?case
  proof (cases "L2 = [] \<or> R2 = []")
    case True
    then have "merge_loop (L1 @ L2) (R1 @ R2) (int (length L1)) (int (length R1)) res
        = Inr (int (length L1), int (length R1), res)"
      by (subst merge_loop.simps) auto
    moreover have "sorted (res @ L2) \<and> sorted (res @ R2) \<longrightarrow> sorted (res @ L2 @ R2)"
      using True by auto
    ultimately show ?thesis
      by (intro exI [of _ "int (length L1)"] exI [of _ "int (length R1)"] exI [of _ res])
         (simp add: slice_ok_def)
  next
    case False
    then obtain x L2' y R2' where L2: "L2 = x # L2'" and R2: "R2 = y # R2'"
      by (cases L2; cases R2) auto
    have guard: "int (length L1) < int (length (L1 @ L2)) \<and> int (length R1) < int (length (R1 @ R2))"
      using L2 R2 by simp
    have rd: "in_range (L1 @ L2) (int (length L1))" "in_range (R1 @ R2) (int (length R1))"
      "at (L1 @ L2) (int (length L1)) = x" "at (R1 @ R2) (int (length R1)) = y"
      unfolding L2 R2 by simp_all
    show ?thesis
    proof (cases "x \<le> y")
      case True
      have step: "merge_loop (L1 @ L2) (R1 @ R2) (int (length L1)) (int (length R1)) res
          = merge_loop ((L1 @ [x]) @ L2') (R1 @ R2) (int (length (L1 @ [x]))) (int (length R1))
              (res @ [x])"
        using guard rd True
        by (subst merge_loop.simps) (simp add: L2 add.commute)
      have "length L2' + length R2 < length L2 + length R2" using L2 by simp
      from less.hyps [OF this, of "L1 @ [x]" R1 "res @ [x]"] obtain i' j' res' where
        r: "merge_loop ((L1 @ [x]) @ L2') (R1 @ R2) (int (length (L1 @ [x]))) (int (length R1))
              (res @ [x]) = Inr (i', j', res')"
           "slice_ok ((L1 @ [x]) @ L2') i'" "slice_ok (R1 @ R2) j'"
           "mset (res' @ drop (nat i') ((L1 @ [x]) @ L2') @ drop (nat j') (R1 @ R2))
              = mset ((res @ [x]) @ L2' @ R2)"
           "sorted ((res @ [x]) @ L2') \<and> sorted ((res @ [x]) @ R2)
              \<longrightarrow> sorted (res' @ drop (nat i') ((L1 @ [x]) @ L2') @ drop (nat j') (R1 @ R2))"
        by blast
      have same: "(L1 @ [x]) @ L2' = L1 @ L2" using L2 by simp
      have "sorted (res @ L2) \<and> sorted (res @ R2)
          \<longrightarrow> sorted ((res @ [x]) @ L2') \<and> sorted ((res @ [x]) @ R2)"
        using True unfolding L2 R2 by (fastforce simp: sorted_append)
      with r(5) have "sorted (res @ L2) \<and> sorted (res @ R2)
          \<longrightarrow> sorted (res' @ drop (nat i') (L1 @ L2) @ drop (nat j') (R1 @ R2))"
        unfolding same by blast
      moreover have "mset (res' @ drop (nat i') (L1 @ L2) @ drop (nat j') (R1 @ R2))
          = mset (res @ L2 @ R2)"
        using r(4) unfolding same by (simp add: L2)
      moreover have "merge_loop (L1 @ L2) (R1 @ R2) (int (length L1)) (int (length R1)) res
          = Inr (i', j', res')"
        using step r(1) by simp
      ultimately show ?thesis
        using r(2,3) unfolding same
        by (intro exI [of _ i'] exI [of _ j'] exI [of _ res'] conjI)
    next
      case False
      have step: "merge_loop (L1 @ L2) (R1 @ R2) (int (length L1)) (int (length R1)) res
          = merge_loop (L1 @ L2) ((R1 @ [y]) @ R2') (int (length L1)) (int (length (R1 @ [y])))
              (res @ [y])"
        using guard rd False
        by (subst merge_loop.simps) (simp add: R2 add.commute)
      have "length L2 + length R2' < length L2 + length R2" using R2 by simp
      from less.hyps [OF this, of L1 "R1 @ [y]" "res @ [y]"] obtain i' j' res' where
        r: "merge_loop (L1 @ L2) ((R1 @ [y]) @ R2') (int (length L1)) (int (length (R1 @ [y])))
              (res @ [y]) = Inr (i', j', res')"
           "slice_ok (L1 @ L2) i'" "slice_ok ((R1 @ [y]) @ R2') j'"
           "mset (res' @ drop (nat i') (L1 @ L2) @ drop (nat j') ((R1 @ [y]) @ R2'))
              = mset ((res @ [y]) @ L2 @ R2')"
           "sorted ((res @ [y]) @ L2) \<and> sorted ((res @ [y]) @ R2')
              \<longrightarrow> sorted (res' @ drop (nat i') (L1 @ L2) @ drop (nat j') ((R1 @ [y]) @ R2'))"
        by blast
      have same: "(R1 @ [y]) @ R2' = R1 @ R2" using R2 by simp
      have "sorted (res @ L2) \<and> sorted (res @ R2)
          \<longrightarrow> sorted ((res @ [y]) @ L2) \<and> sorted ((res @ [y]) @ R2')"
        using False unfolding L2 R2 by (fastforce simp: sorted_append)
      with r(5) have "sorted (res @ L2) \<and> sorted (res @ R2)
          \<longrightarrow> sorted (res' @ drop (nat i') (L1 @ L2) @ drop (nat j') (R1 @ R2))"
        unfolding same by blast
      moreover have "mset (res' @ drop (nat i') (L1 @ L2) @ drop (nat j') (R1 @ R2))
          = mset (res @ L2 @ R2)"
        using r(4) unfolding same by (simp add: R2)
      moreover have "merge_loop (L1 @ L2) (R1 @ R2) (int (length L1)) (int (length R1)) res
          = Inr (i', j', res')"
        using step r(1) by simp
      ultimately show ?thesis
        using r(2,3) unfolding same
        by (intro exI [of _ i'] exI [of _ j'] exI [of _ res'] conjI)
    qed
  qed
qed

lemma merge_spec:
  "\<exists>m. merge left right = Inr m \<and> mset m = mset left + mset right
      \<and> (sorted left \<and> sorted right \<longrightarrow> sorted m)"
proof -
  from merge_loop_spec [of "[]" left "[]" right "[]"] obtain i' j' res' where
    r: "merge_loop left right 0 0 [] = Inr (i', j', res')"
       "slice_ok left i'" "slice_ok right j'"
       "mset (res' @ drop (nat i') left @ drop (nat j') right) = mset (left @ right)"
       "sorted left \<and> sorted right \<longrightarrow> sorted (res' @ drop (nat i') left @ drop (nat j') right)"
    by auto
  then have "merge left right = Inr (res' @ drop (nat i') left @ drop (nat j') right)"
    by (simp add: merge_def)
  with r(4,5) show ?thesis by simp
qed

lemma MergeSort_sorts:
  "\<exists>a. MergeSort arr = Inr a \<and> sorted a \<and> mset a = mset arr"
proof (induction "length arr" arbitrary: arr rule: less_induct)
  case less
  show ?case
  proof (cases "length arr \<le> 1")
    case True
    then have "sorted arr" by (cases arr) (auto simp: le_Suc_eq)
    moreover have "MergeSort arr = Inr arr"
      using True by (subst MergeSort.simps) simp
    ultimately show ?thesis by simp
  next
    case False
    define mid where "mid = int (length arr) div 2"
    have mid: "0 < mid" "mid < int (length arr)"
      using False by (auto simp: mid_def)
    then have ok: "slice_ok arr mid" by (simp add: slice_ok_def)
    have "length (take (nat mid) arr) < length arr" "length (drop (nat mid) arr) < length arr"
      using mid by auto
    from less.hyps [OF this(1)] less.hyps [OF this(2)] obtain l r where
      l: "MergeSort (take (nat mid) arr) = Inr l" "sorted l" "mset l = mset (take (nat mid) arr)"
      and r: "MergeSort (drop (nat mid) arr) = Inr r" "sorted r"
        "mset r = mset (drop (nat mid) arr)"
      by blast
    from merge_spec [of l r] l(2) r(2) obtain m where
      m: "merge l r = Inr m" "mset m = mset l + mset r" "sorted m"
      by blast
    have "MergeSort arr = Inr m"
      using False ok l(1) r(1) m(1)
      by (subst MergeSort.simps) (simp add: mid_def [symmetric] Let_def)
    moreover have "mset m = mset arr"
      using m(2) l(3) r(3) by (metis append_take_drop_id mset_append)
    ultimately show ?thesis using m(3) by simp
  qed
qed

text \<open>
  C1. For every int array, \<open>BubbleSort\<close>, \<open>QuickSort\<close> and \<open>InsertionSort\<close> finish without
  a panic and leave in the array a non-decreasing permutation of its original contents
  (the same multiset of elements), and \<open>MergeSort\<close> returns such a permutation.
\<close>

theorem C1_sorting_algorithms_sort:
  "(\<exists>a. BubbleSort arr = Inr a \<and> sorted a \<and> mset a = mset arr)
   \<and> (\<exists>a. QuickSort arr = Inr a \<and> sorted a \<and> mset a = mset arr)
   \<and> (\<exists>a. InsertionSort arr = Inr a \<and> sorted a \<and> mset a = mset arr)
   \<and> (\<exists>a. MergeSort arr = Inr a \<and> sorted a \<and> mset a = mset arr)"
  by (intro conjI BubbleSort_sorts QuickSort_sorts InsertionSort_sorts MergeSort_sorts)

section \<open>Searching: results\<close>

declare BinarySearch_loop.simps [simp del]
declare LinearSearch_loop.simps [simp del]

lemma BinarySearch_loop_correct:
  assumes "sorted arr" "0 \<le> left" "right < int (length arr)"
    and "\<forall>k. in_range arr k \<and> at arr k = target \<longrightarrow> left \<le> k \<and> k \<le> right"
  shows "\<exists>i. BinarySearch_loop arr target left right = Inr i \<and>
           (if target \<in> set arr then in_range arr i \<and> at arr i = target else i = -1)"
  using assms
proof (induction arr target left right rule: BinarySearch_loop.induct)
  case (1 arr target left right)
  show ?case
  proof (cases "left \<le> right")
    case False
    have "target \<notin> set arr"
    proof
      assume "target \<in> set arr"
      then obtain k where "k < length arr" "arr ! k = target"
        by (auto simp: in_set_conv_nth)
      then have "in_range arr (int k) \<and> at arr (int k) = target"
        by (simp add: in_range_def at_def)
      with "1.prems"(4) False show False by fastforce
    qed
    with False show ?thesis
      by (subst BinarySearch_loop.simps) simp
  next
    case True
    define mid where "mid = left + (right - left) div 2"
    have mid: "left \<le> mid" "mid \<le> right"
      using True by (auto simp: mid_def)
    then have inr: "in_range arr mid"
      using "1.prems"(2,3) by (simp add: in_range_def)
    consider (eq) "at arr mid = target" | (lt) "at arr mid < target" | (gt) "target < at arr mid"
      by fastforce
    then show ?thesis
    proof cases
      case eq
      then have "target \<in> set arr"
        using inr by (auto simp: in_range_def at_def)
      with True eq inr show ?thesis
        by (subst BinarySearch_loop.simps) (simp add: mid_def [symmetric] Let_def)
    next
      case lt
      have "\<forall>k. in_range arr k \<and> at arr k = target \<longrightarrow> mid + 1 \<le> k \<and> k \<le> right"
      proof (intro allI impI)
        fix k assume k: "in_range arr k \<and> at arr k = target"
        with "1.prems"(4) have "left \<le> k" "k \<le> right" by auto
        have "\<not> k \<le> mid"
        proof
          assume "k \<le> mid"
          then have "arr ! nat k \<le> arr ! nat mid"
            using \<open>sorted arr\<close> inr k by (auto simp: in_range_def intro!: sorted_nth_mono)
          with k lt show False by (simp add: at_def)
        qed
        with \<open>k \<le> right\<close> show "mid + 1 \<le> k \<and> k \<le> right" by simp
      qed
      with "1.IH"(1) [of mid] True mid_def inr lt "1.prems"(1,2,3) mid
      have "\<exists>i. BinarySearch_loop arr target (mid + 1) right = Inr i \<and>
           (if target \<in> set arr then in_range arr i \<and> at arr i = target else i = -1)"
        by auto
      with True lt inr show ?thesis
        by (subst BinarySearch_loop.simps) (simp add: mid_def [symmetric] Let_def)
    next
      case gt
      have "\<forall>k. in_range arr k \<and> at arr k = target \<longrightarrow> left \<le> k \<and> k \<le> mid - 1"
      proof (intro allI impI)
        fix k assume k: "in_range arr k \<and> at arr k = target"
        with "1.prems"(4) have "left \<le> k" "k \<le> right" by auto
        have "\<not> mid \<le> k"
        proof
          assume "mid \<le> k"
          then have "arr ! nat mid \<le> arr ! nat k"
            using \<open>sorted arr\<close> inr k by (auto simp: in_range_def intro!: sorted_nth_mono)
          with k gt show False by (simp add: at_def)
        qed
        with \<open>left \<le> k\<close> show "left \<le> k \<and> k \<le> mid - 1" by simp
      qed
      with "1.IH"(2) [of mid] True mid_def inr gt "1.prems"(1,2,3) mid
      have "\<exists>i. BinarySearch_loop arr target left (mid - 1) = Inr i \<and>
           (if target \<in> set arr then in_range arr i \<and> at arr i = target else i = -1)"
        by auto
      with True gt inr show ?thesis
        by (subst BinarySearch_loop.simps) (simp add: mid_def [symmetric] Let_def)
    qed
  qed
qed

text \<open>
  C2. On a sorted array \<open>BinarySearch\<close> does not panic; when the target occurs in the
  array it returns an index inside the array at which the target stands, and when it
  does not occur it returns -1.
\<close>

theorem C2_BinarySearch:
  "sorted arr \<Longrightarrow>
     \<exists>i. BinarySearch arr target = Inr i \<and>
       (if target \<in> set arr then in_range arr i \<and> at arr i = target else i = -1)"
  unfolding BinarySearch_def
  by (rule BinarySearch_loop_correct) (auto simp: in_range_def)

theorem C2_BinarySearch_witness:
  "sorted [1, 3, 5, 7, 9, 11, 13, 15, 17, 19 :: int] \<and>
   BinarySearch [1, 3, 5, 7, 9, 11, 13, 15, 17, 19] 13 = Inr 6 \<and>
   BinarySearch [1, 3, 5, 7, 9, 11, 13, 15, 17, 19] 4 = Inr (-1)"
  using C2_BinarySearch [of "[1, 3, 5, 7, 9, 11, 13, 15, 17, 19]" 13]
  by (simp add: BinarySearch_def BinarySearch_loop.simps in_range_def at_def)

text \<open>
  C10. On the empty array \<open>JumpSearch\<close> panics whatever the target (and whatever the
  value of the square root): it is the first loop, the search for the block, that
  panics, on its first probe \<^verbatim>\<open>arr[min(step, n)-1]\<close>, before anything else is read. The
  probe index \<open>min(step, 0) - 1\<close> is out of range for every step, and it is -1 for the
  step 0 that the square root of 0 gives. \<open>LinearSearch\<close> and \<open>BinarySearch\<close> return -1
  on the empty array.
\<close>

theorem C10_JumpSearch_empty_panics:
  "JumpSearch_block s [] target s 0 = Some (Inl IndexOutOfRange)
   \<and> \<not> in_range ([] :: int list) (min_int s (int (length ([] :: int list))) - 1)
   \<and> min_int 0 (int (length ([] :: int list))) - 1 = -1
   \<and> JumpSearch s [] target = Some (Inl IndexOutOfRange)
   \<and> LinearSearch [] target = -1
   \<and> BinarySearch [] target = Inr (-1)"
proof (intro conjI)
  show block: "JumpSearch_block s [] target s 0 = Some (Inl IndexOutOfRange)"
    by (subst JumpSearch_block.simps) (simp add: in_range_def min_int_def)
  show "\<not> in_range ([] :: int list) (min_int s (int (length ([] :: int list))) - 1)"
    by (simp add: in_range_def min_int_def)
  show "min_int 0 (int (length ([] :: int list))) - 1 = -1"
    by (simp add: min_int_def)
  show "JumpSearch s [] target = Some (Inl IndexOutOfRange)"
    by (simp add: JumpSearch_def block)
  show "LinearSearch [] target = -1"
    by (simp add: LinearSearch_def LinearSearch_loop.simps in_range_def)
  show "BinarySearch [] target = Inr (-1)"
    by (simp add: BinarySearch_def BinarySearch_loop.simps)
qed

section \<open>String matching: results\<close>

lemma computeLPSArray_AABA: "computeLPSArray ''AABA'' = Some (Inr [0, 1, 0, 1])"
  by code_simp

text \<open>
  C7. \<open>KMPSearch("AABAACAADAABAAABAA", "AABA")\<close> returns, without a panic, the list of
  match positions \<open>[0, 9, 13]\<close>.
\<close>

theorem C7_KMPSearch_example:
  "KMPSearch ''AABAACAADAABAAABAA'' ''AABA'' = Some (Inr [0, 9, 13])"
  by code_simp

section \<open>Rune conversions: results\<close>

declare digits.simps [simp del]

lemma digits_nonempty: "digits n \<noteq> []"
  by (subst digits.simps) simp

lemma digits_hd: "(of_char (hd (digits n)) :: int) < 64"
proof (induction n rule: digits.induct)
  case (1 n)
  show ?case
  proof (cases "n < 10")
    case True
    then show ?thesis by (subst digits.simps) simp
  next
    case False
    with "1.IH" show ?thesis
      by (subst digits.simps) (simp add: digits_nonempty)
  qed
qed

lemma digits_single: "length (digits n) = 1 \<Longrightarrow> n < 10"
proof (rule ccontr)
  assume l: "length (digits n) = 1" and "\<not> n < 10"
  then have "digits n = digits (n div 10) @ [char_of (48 + int (n mod 10))]"
    by (subst digits.simps) simp
  with l digits_nonempty [of "n div 10"] show False by simp
qed

lemma decimal_hd: "decimal n \<noteq> [] \<and> (of_char (hd (decimal n)) :: int) < 64"
  by (simp add: decimal_def digits_nonempty digits_hd)

lemma decimal_single:
  assumes "decimal n = [c]"
  shows "0 \<le> n \<and> n < 10 \<and> c = char_of (48 + n)"
proof -
  have nonneg: "0 \<le> n"
  proof (rule ccontr)
    assume "\<not> 0 \<le> n"
    with assms digits_nonempty [of "nat (- n)"] show False
      by (simp add: decimal_def)
  qed
  with assms have d: "digits (nat n) = [c]" by (simp add: decimal_def)
  then have "nat n < 10" by (intro digits_single) simp
  with d nonneg show ?thesis
    by (subst (asm) digits.simps) simp
qed

lemma utf8_encode_shape:
  assumes "valid_rune c"
  shows "(c < 0x80 \<and> utf8_encode c = [char_of c])
       \<or> (utf8_encode c \<noteq> [] \<and> (of_char (hd (utf8_encode c)) :: int) \<ge> 192)"
proof (cases "c < 0x80")
  case True
  then show ?thesis by (simp add: utf8_encode_def)
next
  case False
  have c: "0 \<le> c" "c \<le> 0x10FFFF" using assms by (simp_all add: valid_rune_def)
  consider "c < 0x800" | "0x800 \<le> c" "c < 0x10000" | "0x10000 \<le> c" by linarith
  then have "utf8_encode c \<noteq> [] \<and> (of_char (hd (utf8_encode c)) :: int) \<ge> 192"
  proof cases
    case 1
    with False have "2 \<le> c div 0x40" "c div 0x40 < 0x20" by simp_all
    then have "(0xC0 + c div 0x40) mod 256 = 0xC0 + c div 0x40" "192 \<le> 0xC0 + c div 0x40"
      by simp_all
    with 1 False show ?thesis
      by (simp add: utf8_encode_def of_char_of)
  next
    case 2
    then have "0 \<le> c div 0x1000" "c div 0x1000 < 0x10" by simp_all
    then have "(0xE0 + c div 0x1000) mod 256 = 0xE0 + c div 0x1000" "192 \<le> 0xE0 + c div 0x1000"
      by simp_all
    with 2 False show ?thesis
      by (simp add: utf8_encode_def of_char_of)
  next
    case 3
    with c have "0 \<le> c div 0x40000" "c div 0x40000 < 0x5" by simp_all
    then have "(0xF0 + c div 0x40000) mod 256 = 0xF0 + c div 0x40000"
      "192 \<le> 0xF0 + c div 0x40000"
      by simp_all
    with 3 False show ?thesis
      by (simp add: utf8_encode_def of_char_of)
  qed
  then show ?thesis by simp
qed


lemma rune_small: "- (2 ^ 31) \<le> n \<Longrightarrow> n < 2 ^ 31 \<Longrightarrow> sint (rune n) = n"
  by (simp add: rune_def sint_sbintrunc' signed_take_bit_int_eq_self)

lemma string_of_rune_shape:
  "(\<exists>c. valid_rune c \<and> c < 0x80 \<and> c = sint r \<and> string_of_rune r = [char_of c])
   \<or> (string_of_rune r \<noteq> [] \<and> (of_char (hd (string_of_rune r)) :: int) \<ge> 192)"
proof (cases "valid_rune (sint r)")
  case True
  with utf8_encode_shape [OF True] show ?thesis
    by (auto simp: string_of_rune_def)
next
  case False
  have "valid_rune 0xFFFD" by (simp add: valid_rune_def)
  from utf8_encode_shape [OF this] False show ?thesis
    by (simp add: string_of_rune_def)
qed

lemma string_of_rune_not_decimal: "string_of_rune (rune n) \<noteq> decimal n"
proof
  assume eq: "string_of_rune (rune n) = decimal n"
  from string_of_rune_shape [of "rune n"] show False
  proof
    assume "\<exists>c. valid_rune c \<and> c < 0x80 \<and> c = sint (rune n)
        \<and> string_of_rune (rune n) = [char_of c]"
    then obtain c where c: "valid_rune c" "c < 0x80" "c = sint (rune n)"
      "string_of_rune (rune n) = [char_of c]"
      by blast
    from decimal_single [of n "char_of c"] eq c(4)
    have n: "0 \<le> n" "n < 10" "(char_of c :: char) = char_of (48 + n)"
      by simp_all
    from n(1,2) have "sint (rune n) = n" by (intro rune_small) simp_all
    with c(3) n(3) have "(char_of n :: char) = char_of (48 + n)" by simp
    then have "(of_char (char_of n :: char) :: int) = of_char (char_of (48 + n) :: char)"
      by simp
    with n(1,2) show False
      by (simp add: of_char_of)
  next
    assume "string_of_rune (rune n) \<noteq> []
        \<and> (192 :: int) \<le> of_char (hd (string_of_rune (rune n)))"
    with eq decimal_hd [of n] show False by simp
  qed
qed

lemma utf8_encode_FFFD: "utf8_encode 0xFFFD = [CHR 0xEF, CHR 0xBF, CHR 0xBD]"
  by code_simp

lemma string_of_rune_minus_1: "string_of_rune (rune (-1)) = [CHR 0xEF, CHR 0xBF, CHR 0xBD]"
  by code_simp

lemma string_of_rune_1024: "string_of_rune (rune 1024) = [CHR 0xD0, CHR 0x80]"
  by code_simp

lemma decimal_1024: "decimal 1024 = ''1024''"
  by code_simp

lemma rune_minus_1_invalid: "\<not> valid_rune (sint (rune (-1)))"
  by code_simp

text \<open>
  C8, as stated, fails for a size that is not the code point of a character: for
  \<open>size = -1\<close> the text between "size " and " from " is the encoding of U+FFFD, and no
  character has the code point -1.
\<close>

theorem C8_counterexample:
  "HardDrive_Read ''0x00'' (-1)
     = ''HardDrive: Reading data of size '' @ [CHR 0xEF, CHR 0xBF, CHR 0xBD] @ '' from 0x00''
   \<and> char_with_code_point [CHR 0xEF, CHR 0xBF, CHR 0xBD] 0xFFFD
   \<and> \<not> (\<exists>ch. char_with_code_point ch (-1)
           \<and> HardDrive_Read ''0x00'' (-1)
               = ''HardDrive: Reading data of size '' @ ch @ '' from '' @ ''0x00'')"
proof (intro conjI)
  show "HardDrive_Read ''0x00'' (-1)
     = ''HardDrive: Reading data of size '' @ [CHR 0xEF, CHR 0xBF, CHR 0xBD] @ '' from 0x00''"
    by (simp add: HardDrive_Read_def string_of_rune_minus_1)
  show "char_with_code_point [CHR 0xEF, CHR 0xBF, CHR 0xBD] 0xFFFD"
    by (simp add: char_with_code_point_def utf8_encode_FFFD valid_rune_def)
  show "\<not> (\<exists>ch. char_with_code_point ch (-1)
           \<and> HardDrive_Read ''0x00'' (-1)
               = ''HardDrive: Reading data of size '' @ ch @ '' from '' @ ''0x00'')"
    by (simp add: char_with_code_point_def valid_rune_def)
qed

text \<open>
  C8, amended. \<open>HardDrive.Read(position, size)\<close> returns "HardDrive: Reading data of
  size ", then \<open>string(rune(size))\<close>, then " from " and the position. When \<open>size\<close> is a
  Unicode scalar value, \<open>string(rune(size))\<close> is the single character whose code point is
  \<open>size\<close>; when the rune is not a scalar value it is the character U+FFFD. It is never
  the decimal representation of \<open>size\<close>. The \<open>Pay\<close> methods of the three payment
  strategies embed \<open>string(rune(amount))\<close> in the same way.
\<close>

theorem C8_rune_conversion:
  "HardDrive_Read position sz
     = ''HardDrive: Reading data of size '' @ string_of_rune (rune sz) @ '' from '' @ position
   \<and> (valid_rune sz \<longrightarrow> char_with_code_point (string_of_rune (rune sz)) sz)
   \<and> (\<not> valid_rune (sint (rune sz)) \<longrightarrow>
        char_with_code_point (string_of_rune (rune sz)) 0xFFFD)
   \<and> HardDrive_Read position sz
        \<noteq> ''HardDrive: Reading data of size '' @ decimal sz @ '' from '' @ position
   \<and> CreditCardStrategy_Pay rune_of_float amount
        = ''Paid '' @ string_of_rune (rune_of_float amount) @ '' using Credit Card''
   \<and> PayPalStrategy_Pay rune_of_float amount
        = ''Paid '' @ string_of_rune (rune_of_float amount) @ '' using PayPal''
   \<and> BitcoinStrategy_Pay rune_of_float amount
        = ''Paid '' @ string_of_rune (rune_of_float amount) @ '' using Bitcoin''"
proof (intro conjI impI)
  show "HardDrive_Read position sz
     = ''HardDrive: Reading data of size '' @ string_of_rune (rune sz) @ '' from '' @ position"
    by (simp add: HardDrive_Read_def)
next
  assume v: "valid_rune sz"
  then have "sint (rune sz) = sz"
    by (intro rune_small) (simp_all add: valid_rune_def)
  with v show "char_with_code_point (string_of_rune (rune sz)) sz"
    by (simp add: char_with_code_point_def string_of_rune_def)
next
  assume "\<not> valid_rune (sint (rune sz))"
  then have "string_of_rune (rune sz) = utf8_encode 0xFFFD"
    by (simp add: string_of_rune_def)
  moreover have "valid_rune 0xFFFD" by (simp add: valid_rune_def)
  ultimately show "char_with_code_point (string_of_rune (rune sz)) 0xFFFD"
    by (simp add: char_with_code_point_def)
next
  show "HardDrive_Read position sz
      \<noteq> ''HardDrive: Reading data of size '' @ decimal sz @ '' from '' @ position"
    using string_of_rune_not_decimal [of sz]
    by (simp add: HardDrive_Read_def)
qed (simp_all add: CreditCardStrategy_Pay_def PayPalStrategy_Pay_def BitcoinStrategy_Pay_def)

theorem C8_rune_conversion_witness:
  "valid_rune 1024
   \<and> char_with_code_point (string_of_rune (rune 1024)) 1024
   \<and> string_of_rune (rune 1024) = [CHR 0xD0, CHR 0x80]
   \<and> \<not> valid_rune (sint (rune (-1)))
   \<and> char_with_code_point (string_of_rune (rune (-1))) 0xFFFD
   \<and> HardDrive_Read ''0x00'' 1024
       \<noteq> ''HardDrive: Reading data of size '' @ decimal 1024 @ '' from '' @ ''0x00''
   \<and> decimal 1024 = ''1024''"
proof -
  have v: "valid_rune 1024" by (simp add: valid_rune_def)
  from C8_rune_conversion [of "''0x00''" 1024 "\<lambda>_::unit. 0" "()"]
    C8_rune_conversion [of "''0x00''" "-1" "\<lambda>_::unit. 0" "()"]
    v rune_minus_1_invalid string_of_rune_1024 decimal_1024
  show ?thesis by blast
qed

end
